theory Spec2Isabelle
  imports Main "HOL-Library.AList"
begin

section \<open>The CSP engine of sudokuCSP.py\<close>

text \<open>
  The class \<open>CSP\<close> of \<^verbatim>\<open>src/sudokuCSP.py\<close> (Python 2) is embedded as pure functions
  over a record. A Python \<open>dict\<close> is an association list whose order stands for the
  iteration order of the dictionary; a lookup \<open>d[k]\<close> is \<open>map_of d k\<close> and raises
  \<open>KeyError\<close> where it is \<open>None\<close>; an assignment \<open>d[k] = v\<close> is \<open>AList.update k v d\<close>.
  Variable names and domain values are values of two arbitrary types with equality.
  The identity test \<^verbatim>\<open>xk is not xj\<close> of \<open>inference\<close> is read in this section as
  inequality of names, which is what it computes when every name is held by one string
  object; the section on name objects models the objects themselves, on which the test
  also lets through a key that is named like \<open>xj\<close> and is another object, and shows
  that the two loops agree where names are shared.
  Python 2 leaves the iteration order of a dictionary open; the statements below that
  quantify over networks and assignments hold for every order, and the concrete runs
  are given in the order of the lists written there.
  Functions that mutate an argument in place return the new value. The last two sections
  model the same search over an explicit store of list and dictionary objects, where
  \<open>copy.deepcopy\<close> allocates and \<open>list.remove\<close> overwrites, and relate it to the search
  on values; \<open>BadReference\<close> is raised there by an address that holds no object of the
  expected kind, which no Python run produces.
\<close>

datatype error = KeyError | ValueError | BadReference

type_synonym ('k, 'v) dict = "('k \<times> 'v) list"

record ('n, 'v) csp =
  variables :: "'n list"
  domains :: "('n, 'v list) dict"
  constraints :: "('n, ('n, ('v \<times> 'v) list) dict) dict"
  backtracking_call_counter :: int
  backtracking_fail_counter :: int

text \<open>\<^verbatim>\<open>CSP.__init__\<close>\<close>

definition CSP_init :: "('n, 'v) csp" where
  "CSP_init = \<lparr>variables = [], domains = [], constraints = [],
     backtracking_call_counter = 0, backtracking_fail_counter = 0\<rparr>"

text \<open>\<^verbatim>\<open>CSP.add_variable\<close>: three unguarded statements.\<close>

definition add_variable :: "'n \<Rightarrow> 'v list \<Rightarrow> ('n, 'v) csp \<Rightarrow> ('n, 'v) csp" where
  "add_variable name domain csp =
     csp\<lparr>variables := variables csp @ [name],
         domains := AList.update name domain (domains csp),
         constraints := AList.update name [] (constraints csp)\<rparr>"

text \<open>\<^verbatim>\<open>CSP.get_all_possible_pairs\<close>: \<open>itertools.product(a, b)\<close>.\<close>

definition get_all_possible_pairs :: "'a list \<Rightarrow> 'b list \<Rightarrow> ('a \<times> 'b) list" where
  "get_all_possible_pairs a b = List.product a b"

text \<open>\<^verbatim>\<open>CSP.get_all_arcs\<close>\<close>

definition get_all_arcs :: "('n, 'v) csp \<Rightarrow> ('n \<times> 'n) list" where
  "get_all_arcs csp =
     concat (map (\<lambda>(i, ci). map (\<lambda>(j, pairs). (i, j)) ci) (constraints csp))"

text \<open>\<^verbatim>\<open>CSP.get_all_neighboring_arcs\<close>: the arcs \<open>(i, var)\<close> for the keys \<open>i\<close> of
  \<open>self.constraints[var]\<close>.\<close>

definition get_all_neighboring_arcs :: "('n, 'v) csp \<Rightarrow> 'n \<Rightarrow> error + ('n \<times> 'n) list" where
  "get_all_neighboring_arcs csp var =
     (case map_of (constraints csp) var of
        None \<Rightarrow> Inl KeyError
      | Some cv \<Rightarrow> Inr (map (\<lambda>(i, pairs). (i, var)) cv))"

text \<open>\<^verbatim>\<open>CSP.add_constraint_one_way\<close>\<close>

definition add_constraint_one_way ::
  "'n \<Rightarrow> 'n \<Rightarrow> ('v \<Rightarrow> 'v \<Rightarrow> bool) \<Rightarrow> ('n, 'v) csp \<Rightarrow> error + ('n, 'v) csp" where
  "add_constraint_one_way i j filter_function csp =
     (case map_of (constraints csp) i of
        None \<Rightarrow> Inl KeyError
      | Some ci \<Rightarrow>
          (case (case map_of ci j of
                   Some pairs \<Rightarrow> Inr pairs
                 | None \<Rightarrow>
                     (case map_of (domains csp) i of
                        None \<Rightarrow> Inl KeyError
                      | Some di \<Rightarrow>
                          (case map_of (domains csp) j of
                             None \<Rightarrow> Inl KeyError
                           | Some dj \<Rightarrow> Inr (get_all_possible_pairs di dj)))) of
             Inl e \<Rightarrow> Inl e
           | Inr pairs \<Rightarrow>
               Inr (csp\<lparr>constraints :=
                      AList.update i
                        (AList.update j (filter (\<lambda>(a, b). filter_function a b) pairs) ci)
                        (constraints csp)\<rparr>)))"

text \<open>\<^verbatim>\<open>CSP.add_all_different_constraint\<close>: the loop over the pairs, then the method.\<close>

fun add_all_different_loop :: "('n \<times> 'n) list \<Rightarrow> ('n, 'v) csp \<Rightarrow> error + ('n, 'v) csp" where
  "add_all_different_loop [] csp = Inr csp"
| "add_all_different_loop ((i, j) # rest) csp =
     (if i \<noteq> j then
        (case add_constraint_one_way i j (\<lambda>x y. x \<noteq> y) csp of
           Inl e \<Rightarrow> Inl e
         | Inr csp' \<Rightarrow> add_all_different_loop rest csp')
      else add_all_different_loop rest csp)"

definition add_all_different_constraint :: "'n list \<Rightarrow> ('n, 'v) csp \<Rightarrow> error + ('n, 'v) csp" where
  "add_all_different_constraint vars csp =
     add_all_different_loop (get_all_possible_pairs vars vars) csp"

subsection \<open>Revise\<close>

text \<open>The lookup \<open>self.constraints[i][j]\<close>, \<open>None\<close> where either key is missing.\<close>

definition constraint_of :: "('n, 'v) csp \<Rightarrow> 'n \<Rightarrow> 'n \<Rightarrow> ('v \<times> 'v) list option" where
  "constraint_of csp i j =
     (case map_of (constraints csp) i of None \<Rightarrow> None | Some ci \<Rightarrow> map_of ci j)"

text \<open>The inner loop of \<open>revise\<close> over \<open>jValue\<close>: the constraint is looked up in every
  iteration, so a missing constraint raises only when the loop body runs.\<close>

fun possible_value :: "('v \<times> 'v) list option \<Rightarrow> 'v \<Rightarrow> 'v list \<Rightarrow> error + bool" where
  "possible_value c iValue [] = Inr False"
| "possible_value c iValue (jValue # rest) =
     (case c of
        None \<Rightarrow> Inl KeyError
      | Some pairs \<Rightarrow>
          if (iValue, jValue) \<in> set pairs then Inr True else possible_value c iValue rest)"

text \<open>The outer loop of \<open>revise\<close> over \<open>iValue\<close>, collecting \<open>inconsistencies\<close>;
  \<open>assignment[j]\<close> is looked up in every iteration.\<close>

fun find_inconsistencies ::
  "('v \<times> 'v) list option \<Rightarrow> 'v list option \<Rightarrow> 'v list \<Rightarrow> error + 'v list" where
  "find_inconsistencies c dj [] = Inr []"
| "find_inconsistencies c dj (iValue # rest) =
     (case dj of
        None \<Rightarrow> Inl KeyError
      | Some jValues \<Rightarrow>
          (case possible_value c iValue jValues of
             Inl e \<Rightarrow> Inl e
           | Inr possibleValue \<Rightarrow>
               (case find_inconsistencies c dj rest of
                  Inl e \<Rightarrow> Inl e
                | Inr inconsistencies \<Rightarrow>
                    Inr (if possibleValue then inconsistencies
                         else iValue # inconsistencies))))"

text \<open>\<open>list.remove(value)\<close> deletes the first occurrence and raises \<open>ValueError\<close> when
  there is none; the second loop of \<open>revise\<close> applies it for every inconsistency.\<close>

definition list_remove :: "'v \<Rightarrow> 'v list \<Rightarrow> error + 'v list" where
  "list_remove x xs = (if x \<in> set xs then Inr (remove1 x xs) else Inl ValueError)"

fun remove_values :: "'v list \<Rightarrow> 'v list \<Rightarrow> error + 'v list" where
  "remove_values [] xs = Inr xs"
| "remove_values (x # rest) xs =
     (case list_remove x xs of Inl e \<Rightarrow> Inl e | Inr xs' \<Rightarrow> remove_values rest xs')"

text \<open>\<^verbatim>\<open>CSP.revise\<close>: returns the assignment after the removals and the flag.\<close>

definition revise ::
  "('n, 'v) csp \<Rightarrow> ('n, 'v list) dict \<Rightarrow> 'n \<Rightarrow> 'n \<Rightarrow> error + (('n, 'v list) dict \<times> bool)" where
  "revise csp assignment i j =
     (case map_of assignment i of
        None \<Rightarrow> Inl KeyError
      | Some di \<Rightarrow>
          (case find_inconsistencies (constraint_of csp i j) (map_of assignment j) di of
             Inl e \<Rightarrow> Inl e
           | Inr inconsistencies \<Rightarrow>
               (case remove_values inconsistencies di of
                  Inl e \<Rightarrow> Inl e
                | Inr di' \<Rightarrow>
                    Inr (AList.update i di' assignment, length inconsistencies > 0))))"

subsection \<open>AC-3\<close>

text \<open>The number of values left in all domains: what every removal decreases.\<close>

definition total_size :: "('n, 'v list) dict \<Rightarrow> nat" where
  "total_size a = sum_list (map (\<lambda>(k, d). length d) a)"

lemma total_size_update_le:
  "map_of a k = Some d \<Longrightarrow> length d' \<le> length d \<Longrightarrow>
   total_size (AList.update k d' a) \<le> total_size a"
  by (induction a) (auto simp: total_size_def)

lemma total_size_update_less:
  "map_of a k = Some d \<Longrightarrow> length d' < length d \<Longrightarrow>
   total_size (AList.update k d' a) < total_size a"
  by (induction a) (auto simp: total_size_def)

lemma remove_values_length:
  "remove_values incs xs = Inr xs' \<Longrightarrow> length xs' + length incs = length xs"
proof (induction incs arbitrary: xs)
  case Nil
  then show ?case by simp
next
  case (Cons x incs)
  from Cons.prems obtain ys where ys: "list_remove x xs = Inr ys" "remove_values incs ys = Inr xs'"
    by (auto split: sum.splits)
  from ys(1) have "x \<in> set xs" "ys = remove1 x xs"
    by (auto simp: list_remove_def split: if_splits)
  then have "Suc (length ys) = length xs"
    by (metis One_nat_def Suc_pred length_pos_if_in_set length_remove1)
  with Cons.IH [OF ys(2)] show ?case by simp
qed

lemma revise_unchanged:
  assumes "revise csp a i j = Inr (a', False)"
  shows "a' = a"
proof -
  from assms obtain di incs di' where
    di: "map_of a i = Some di" and "remove_values incs di = Inr di'"
    and "a' = AList.update i di' a" and "\<not> length incs > 0"
    by (auto simp: revise_def split: option.splits sum.splits)
  then have "di' = di" by simp
  with di \<open>a' = AList.update i di' a\<close> show ?thesis by (simp add: update_triv)
qed

lemma revise_shrinks:
  assumes "revise csp a i j = Inr (a', True)"
  shows "total_size a' < total_size a"
proof -
  from assms obtain di incs di' where
    di: "map_of a i = Some di" and rm: "remove_values incs di = Inr di'"
    and a': "a' = AList.update i di' a" and "length incs > 0"
    by (auto simp: revise_def split: option.splits sum.splits)
  with remove_values_length [OF rm] have "length di' < length di" by (cases incs) auto
  with di a' show ?thesis by (simp add: total_size_update_less)
qed

text \<open>\<^verbatim>\<open>CSP.inference\<close>: \<open>queue.pop()\<close> takes the last arc, \<open>queue.append\<close> adds at the
  end. The result is the assignment as the loop left it and the returned flag. The test
  \<^verbatim>\<open>xk is not xj\<close> is on names here; \<open>inference_obj\<close> below has it on objects.\<close>

function inference ::
  "('n, 'v) csp \<Rightarrow> ('n, 'v list) dict \<Rightarrow> ('n \<times> 'n) list \<Rightarrow>
     error + (('n, 'v list) dict \<times> bool)" where
  "inference csp assignment queue =
     (if queue = [] then Inr (assignment, True)
      else
        (case last queue of (xi, xj) \<Rightarrow>
          (case revise csp assignment xi xj of
             Inl e \<Rightarrow> Inl e
           | Inr (assignment', revised) \<Rightarrow>
               if revised then
                 (case map_of assignment' xi of
                    None \<Rightarrow> Inl KeyError
                  | Some d \<Rightarrow>
                      if length d = 0 then Inr (assignment', False)
                      else
                        (case get_all_neighboring_arcs csp xi of
                           Inl e \<Rightarrow> Inl e
                         | Inr arcs \<Rightarrow>
                             inference csp assignment'
                               (butlast queue @
                                map (\<lambda>(xk, y). (xk, xi)) (filter (\<lambda>(xk, y). xk \<noteq> xj) arcs))))
               else inference csp assignment' (butlast queue))))"
  by pat_completeness auto
termination
proof (relation "measures [\<lambda>(csp, a, q). total_size a, \<lambda>(csp, a, q). length q]", goal_cases)
  case 1
  show ?case by simp
next
  case 2
  then show ?case by (auto dest: revise_shrinks)
next
  case 3
  then show ?case by (auto dest: revise_unchanged)
qed

declare inference.simps [simp del]

subsection \<open>Backtracking search\<close>

text \<open>\<open>len(assignment[key])\<close> for a key the loop draws from \<open>assignment\<close> itself, where
  the lookup cannot fail.\<close>

definition len_of :: "('n, 'v list) dict \<Rightarrow> 'n \<Rightarrow> nat" where
  "len_of assignment key = (case map_of assignment key of None \<Rightarrow> 0 | Some d \<Rightarrow> length d)"

text \<open>\<^verbatim>\<open>CSP.assignment_done\<close>: the loop over the keys, then the method.\<close>

fun assignment_done_loop :: "('n, 'v list) dict \<Rightarrow> 'n list \<Rightarrow> bool" where
  "assignment_done_loop assignment [] = True"
| "assignment_done_loop assignment (key # rest) =
     (if len_of assignment key > 1 then False else assignment_done_loop assignment rest)"

definition assignment_done :: "('n, 'v list) dict \<Rightarrow> bool" where
  "assignment_done assignment = assignment_done_loop assignment (map fst assignment)"

text \<open>\<^verbatim>\<open>CSP.select_unassigned_variable\<close>: falling off the loop returns \<open>None\<close>.\<close>

fun select_loop :: "('n, 'v list) dict \<Rightarrow> 'n list \<Rightarrow> 'n option" where
  "select_loop assignment [] = None"
| "select_loop assignment (key # rest) =
     (if len_of assignment key > 1 then Some key else select_loop assignment rest)"

definition select_unassigned_variable :: "('n, 'v list) dict \<Rightarrow> 'n option" where
  "select_unassigned_variable assignment = select_loop assignment (map fst assignment)"

text \<open>What \<open>backtrack\<close> returns: \<open>False\<close> or the assignment. In \<^verbatim>\<open>if result:\<close> the
  value \<open>False\<close> and the empty dictionary are falsy.\<close>

datatype ('n, 'v) result = Failure | Solution "('n, 'v list) dict"

fun truthy :: "('n, 'v) result \<Rightarrow> bool" where
  "truthy Failure = False"
| "truthy (Solution assignment) = (assignment \<noteq> [])"

text \<open>The values a state can still lose before every domain has at most one.\<close>

definition excess :: "('n, 'v list) dict \<Rightarrow> nat" where
  "excess a = sum_list (map (\<lambda>(k, d). length d - 1) a)"

lemma excess_update_le:
  "map_of a k = Some d \<Longrightarrow> length d' \<le> length d \<Longrightarrow> excess (AList.update k d' a) \<le> excess a"
  by (induction a) (auto simp: excess_def)

lemma excess_update_less:
  "map_of a k = Some d \<Longrightarrow> length d > 1 \<Longrightarrow> length d' \<le> 1 \<Longrightarrow>
   excess (AList.update k d' a) < excess a"
  by (induction a) (auto simp: excess_def)

lemma excess_update_small:
  "length d \<le> 1 \<Longrightarrow> length d' \<le> 1 \<Longrightarrow> excess (AList.update k d a) = excess (AList.update k d' a)"
  by (induction a) (auto simp: excess_def)

lemma revise_excess:
  assumes "revise csp a i j = Inr (a', r)"
  shows "excess a' \<le> excess a"
proof -
  from assms obtain di incs di' where
    di: "map_of a i = Some di" and rm: "remove_values incs di = Inr di'"
    and a': "a' = AList.update i di' a"
    by (auto simp: revise_def split: option.splits sum.splits)
  from remove_values_length [OF rm] have "length di' \<le> length di" by simp
  with di a' show ?thesis by (simp add: excess_update_le)
qed

lemma inference_excess:
  "inference csp a q = Inr (a', r) \<Longrightarrow> excess a' \<le> excess a"
proof (induction csp a q rule: inference.induct)
  case (1 csp a q)
  show ?case
  proof (cases "q = []")
    case True
    with "1.prems" show ?thesis by (simp add: inference.simps)
  next
    case False
    obtain xi xj where l: "last q = (xi, xj)" by (cases "last q")
    from "1.prems" False l obtain a1 revised where
      rv: "revise csp a xi xj = Inr (a1, revised)"
      by (auto simp: inference.simps [of csp a q] split: sum.splits)
    note le = revise_excess [OF rv]
    show ?thesis
    proof (cases revised)
      case True
      from "1.prems" False l rv True obtain d where d: "map_of a1 xi = Some d"
        by (auto simp: inference.simps [of csp a q] split: option.splits)
      show ?thesis
      proof (cases "length d = 0")
        case True
        with "1.prems" False l rv \<open>revised\<close> d have "a' = a1"
          by (auto simp: inference.simps [of csp a q])
        with le show ?thesis by simp
      next
        case nonempty: False
        from "1.prems" False l rv \<open>revised\<close> d nonempty obtain arcs where
          arcs: "get_all_neighboring_arcs csp xi = Inr arcs"
          and rec: "inference csp a1
             (butlast q @ map (\<lambda>(xk, y). (xk, xi)) (filter (\<lambda>(xk, y). xk \<noteq> xj) arcs))
             = Inr (a', r)"
          by (auto simp: inference.simps [of csp a q] split: sum.splits)
        from "1.IH"(1) [OF False l [symmetric] rv refl \<open>revised\<close> d nonempty arcs rec] le
        show ?thesis by simp
      qed
    next
      case not_revised: False
      from "1.prems" False l rv not_revised have rec: "inference csp a1 (butlast q) = Inr (a', r)"
        by (auto simp: inference.simps [of csp a q])
      from "1.IH"(2) [OF False l [symmetric] rv refl not_revised rec] le
      show ?thesis by simp
    qed
  qed
qed

lemma select_loop_Some:
  "select_loop a ks = Some v \<Longrightarrow> len_of a v > 1"
  by (induction ks) (auto split: if_splits)

lemma select_Some:
  assumes "select_unassigned_variable a = Some v"
  shows "\<exists>d. map_of a v = Some d \<and> length d > 1"
  using select_loop_Some [of a "map fst a" v] assms
  by (auto simp: select_unassigned_variable_def len_of_def split: option.splits)

text \<open>\<^verbatim>\<open>CSP.backtrack\<close> and its \<open>for\<close> loop over the values of the selected variable.
  The loop reads the values from the caller's \<open>assignment\<close>, makes
  \<open>new_assignment\<close> from it for every value, and passes the counters on.\<close>

function backtrack ::
    "('n, 'v) csp \<Rightarrow> ('n, 'v list) dict \<Rightarrow> error + (('n, 'v) csp \<times> ('n, 'v) result)"
  and backtrack_values ::
    "('n, 'v) csp \<Rightarrow> ('n, 'v list) dict \<Rightarrow> 'n \<Rightarrow> 'v list \<Rightarrow>
       error + (('n, 'v) csp \<times> ('n, 'v) result)" where
  "backtrack csp assignment =
     (if assignment_done assignment then
        Inr (csp\<lparr>backtracking_call_counter := backtracking_call_counter csp + 1\<rparr>,
             Solution assignment)
      else
        (case select_unassigned_variable assignment of
           None \<Rightarrow> Inl KeyError
         | Some variable \<Rightarrow>
             (case map_of assignment variable of
                None \<Rightarrow> Inl KeyError
              | Some ds \<Rightarrow>
                  backtrack_values
                    (csp\<lparr>backtracking_call_counter := backtracking_call_counter csp + 1\<rparr>)
                    assignment variable ds)))"
| "backtrack_values csp assignment variable [] =
     Inr (csp\<lparr>backtracking_fail_counter := backtracking_fail_counter csp + 1\<rparr>, Failure)"
| "backtrack_values csp assignment variable (domain # rest) =
     (case get_all_neighboring_arcs csp variable of
        Inl e \<Rightarrow> Inl e
      | Inr arcs \<Rightarrow>
          (case inference csp (AList.update variable [domain] assignment) arcs of
             Inl e \<Rightarrow> Inl e
           | Inr (new_assignment, consistent) \<Rightarrow>
               if consistent then
                 (case backtrack csp new_assignment of
                    Inl e \<Rightarrow> Inl e
                  | Inr (csp', result) \<Rightarrow>
                      if truthy result then Inr (csp', result)
                      else backtrack_values csp' assignment variable rest)
               else backtrack_values csp assignment variable rest))"
  by pat_completeness auto
termination
proof (relation "measures
    [\<lambda>x. case x of Inl (csp, a) \<Rightarrow> excess a
               | Inr (csp, a, v, ds) \<Rightarrow> excess (AList.update v [] a),
     \<lambda>x. case x of Inl (csp, a) \<Rightarrow> 0 | Inr (csp, a, v, ds) \<Rightarrow> Suc (length ds)]",
    goal_cases)
  case 1
  show ?case by simp
next
  case (2 csp assignment variable ds)
  from select_Some [OF 2(2)] 2(3) have "length ds > 1" by simp
  with 2(3) have "excess (AList.update variable [] assignment) < excess assignment"
    by (simp add: excess_update_less)
  then show ?case by simp
next
  case (3 csp assignment variable domain rest arcs x2 new_assignment consistent)
  then have "inference csp (AList.update variable [domain] assignment) arcs
    = Inr (new_assignment, consistent)" by simp
  from inference_excess [OF this]
  have "excess new_assignment \<le> excess (AList.update variable [domain] assignment)" .
  also have "\<dots> = excess (AList.update variable [] assignment)"
    by (rule excess_update_small) simp_all
  finally show ?case by auto
next
  case 4
  then show ?case by simp
next
  case 5
  then show ?case by simp
qed

declare backtrack.simps [simp del] backtrack_values.simps [simp del]

text \<open>\<^verbatim>\<open>CSP.backtracking_search\<close>: the deep copy of \<open>self.domains\<close> is the value
  \<open>domains csp\<close>; the flag that \<open>inference\<close> returns is dropped.\<close>

definition backtracking_search ::
  "('n, 'v) csp \<Rightarrow> error + (('n, 'v) csp \<times> ('n, 'v) result)" where
  "backtracking_search csp =
     (case inference csp (domains csp) (get_all_arcs csp) of
        Inl e \<Rightarrow> Inl e
      | Inr (assignment, consistent) \<Rightarrow> backtrack csp assignment)"

section \<open>Networks used as concrete inputs\<close>

text \<open>Two variables with the domain \<open>{1}\<close> and an all-different constraint: the
  unsatisfiable network of the specification.\<close>

definition unsat_network :: "(string, int) csp" where
  "unsat_network =
     \<lparr>variables = [''A'', ''B''],
      domains = [(''A'', [1]), (''B'', [1])],
      constraints = [(''A'', [(''B'', [])]), (''B'', [(''A'', [])])],
      backtracking_call_counter = 0, backtracking_fail_counter = 0\<rparr>"

lemma unsat_network_built:
  "add_all_different_constraint [''A'', ''B'']
     (add_variable ''B'' [1] (add_variable ''A'' [1] CSP_init)) = Inr unsat_network"
  by (simp add: unsat_network_def add_all_different_constraint_def get_all_possible_pairs_def
      add_constraint_one_way_def add_variable_def CSP_init_def)

text \<open>Three variables over \<open>{1, 2, 3}\<close>, all different, and \<open>X < Y\<close> added one way:
  the end-to-end scenario of the specification.\<close>

definition xyz_network :: "(string, int) csp" where
  "xyz_network =
     \<lparr>variables = [''X'', ''Y'', ''Z''],
      domains = [(''X'', [1, 2, 3]), (''Y'', [1, 2, 3]), (''Z'', [1, 2, 3])],
      constraints =
        [(''X'', [(''Y'', [(1, 2), (1, 3), (2, 3)]),
                  (''Z'', [(1, 2), (1, 3), (2, 1), (2, 3), (3, 1), (3, 2)])]),
         (''Y'', [(''X'', [(1, 2), (1, 3), (2, 1), (2, 3), (3, 1), (3, 2)]),
                  (''Z'', [(1, 2), (1, 3), (2, 1), (2, 3), (3, 1), (3, 2)])]),
         (''Z'', [(''X'', [(1, 2), (1, 3), (2, 1), (2, 3), (3, 1), (3, 2)]),
                  (''Y'', [(1, 2), (1, 3), (2, 1), (2, 3), (3, 1), (3, 2)])])],
      backtracking_call_counter = 0, backtracking_fail_counter = 0\<rparr>"

lemma xyz_network_built:
  "(case add_all_different_constraint [''X'', ''Y'', ''Z'']
           (add_variable ''Z'' [1, 2, 3]
             (add_variable ''Y'' [1, 2, 3] (add_variable ''X'' [1, 2, 3] CSP_init))) of
      Inl e \<Rightarrow> Inl e
    | Inr csp \<Rightarrow> add_constraint_one_way ''X'' ''Y'' (\<lambda>x y. x < y) csp) = Inr xyz_network"
  by (simp add: xyz_network_def add_all_different_constraint_def get_all_possible_pairs_def
      add_constraint_one_way_def add_variable_def CSP_init_def)

section \<open>The specification's contract for adding a variable\<close>

text \<open>The specification words \<open>addVariable(name, domain)\<close> as: it fails with
  \<open>DuplicateVariable\<close> if \<open>name\<close> is already present; otherwise it stores the variable
  with its domain and an empty constraint table for it. This definition follows those
  words, for comparison with \<open>add_variable\<close>.\<close>

datatype contract_error = DuplicateVariable

definition addVariable ::
  "'n \<Rightarrow> 'v list \<Rightarrow> ('n, 'v) csp \<Rightarrow> contract_error + ('n, 'v) csp" where
  "addVariable name domain csp =
     (if name \<in> set (variables csp) then Inl DuplicateVariable
      else Inr (csp\<lparr>variables := variables csp @ [name],
                    domains := AList.update name domain (domains csp),
                    constraints := AList.update name [] (constraints csp)\<rparr>))"

section \<open>Revise and the AC-3 loop\<close>

text \<open>A value \<open>a\<close> of \<open>i\<close> is supported when some value \<open>b\<close> of \<open>j\<close> has \<open>(a, b)\<close>
  among the allowed pairs.\<close>

definition supported :: "('v \<times> 'v) list \<Rightarrow> 'v list \<Rightarrow> 'v \<Rightarrow> bool" where
  "supported pairs dj a = list_ex (\<lambda>b. (a, b) \<in> set pairs) dj"

lemma possible_value_supported:
  "possible_value (Some pairs) a dj = Inr (supported pairs dj a)"
  by (induction dj) (auto simp: supported_def)

lemma find_inconsistencies_filter:
  "find_inconsistencies (Some pairs) (Some dj) di = Inr (filter (\<lambda>a. \<not> supported pairs dj a) di)"
  by (induction di) (auto simp: possible_value_supported)

lemma remove_values_filter_aux:
  "\<forall>y\<in>set ys. P y \<Longrightarrow>
   remove_values (filter (\<lambda>a. \<not> P a) xs) (ys @ xs) = Inr (ys @ filter P xs)"
proof (induction xs arbitrary: ys)
  case Nil
  then show ?case by simp
next
  case (Cons x xs)
  show ?case
  proof (cases "P x")
    case True
    with Cons.prems have "\<forall>y\<in>set (ys @ [x]). P y" by simp
    from Cons.IH [OF this] True show ?thesis by simp
  next
    case False
    with Cons.prems have "x \<notin> set ys" by auto
    then have "remove1 x (ys @ x # xs) = ys @ xs" by (simp add: remove1_append)
    with False Cons.IH [OF Cons.prems] show ?thesis by (simp add: list_remove_def)
  qed
qed

lemma remove_values_filter:
  "remove_values (filter (\<lambda>a. \<not> P a) xs) xs = Inr (filter P xs)"
  using remove_values_filter_aux [of "[]" P xs] by simp

lemma revise_result:
  assumes "map_of assignment i = Some di" "map_of assignment j = Some dj"
    "constraint_of csp i j = Some pairs"
  shows "revise csp assignment i j =
    Inr (AList.update i (filter (supported pairs dj) di) assignment,
         \<not> list_all (supported pairs dj) di)"
  using assms
  by (auto simp: revise_def find_inconsistencies_filter remove_values_filter
      list_all_iff filter_empty_conv)


lemma requeue_arcs:
  "map (\<lambda>(xk, y). (xk, i)) (filter (\<lambda>(xk, y). xk \<noteq> j) (map (\<lambda>(k, pairs). (k, i)) ci))
   = map (\<lambda>k. (k, i)) (filter (\<lambda>k. k \<noteq> j) (map fst ci))"
  by (induction ci) auto



section \<open>The AC-3 loop over name objects\<close>

text \<open>
  In a run a variable name is a string object, and two string objects can hold the same
  characters: \<^verbatim>\<open>create_sudoku_csp\<close> formats the name of a cell anew for \<open>add_variable\<close>
  and for every list it passes to \<open>add_all_different_constraint\<close>. A dictionary finds a
  key by its characters and keeps the key object that was stored first; the test
  \<^verbatim>\<open>xk is not xj\<close> of \<open>inference\<close> compares the objects. A name object is its address
  together with the characters it holds, so two objects are the same object exactly when
  they are equal as values of this type.
\<close>

datatype 'n name = Name (address: nat) (chars: 'n)

text \<open>A dictionary with name objects as keys, as its lookups see it.\<close>

definition by_chars :: "('n name, 'x) dict \<Rightarrow> ('n, 'x) dict" where
  "by_chars d = map (\<lambda>(k, x). (chars k, x)) d"

text \<open>The network whose keys are name objects, as \<open>revise\<close> sees it: every lookup
  \<open>self.constraints[i][j]\<close> and \<open>assignment[i]\<close> goes by the characters.\<close>

definition names :: "('n name, 'v) csp \<Rightarrow> ('n, 'v) csp" where
  "names ocsp =
     \<lparr>variables = map chars (variables ocsp),
      domains = by_chars (domains ocsp),
      constraints = by_chars (map (\<lambda>(k, ci). (k, by_chars ci)) (constraints ocsp)),
      backtracking_call_counter = backtracking_call_counter ocsp,
      backtracking_fail_counter = backtracking_fail_counter ocsp\<rparr>"

text \<open>\<^verbatim>\<open>CSP.get_all_neighboring_arcs\<close> with the objects it returns: the key objects of
  \<open>self.constraints[var]\<close>, each paired with the object \<open>var\<close> it was called with.\<close>

definition get_all_neighboring_arcs_obj ::
  "('n name, 'v) csp \<Rightarrow> 'n name \<Rightarrow> error + ('n name \<times> 'n name) list" where
  "get_all_neighboring_arcs_obj ocsp var =
     (case map_of (by_chars (constraints ocsp)) (chars var) of
        None \<Rightarrow> Inl KeyError
      | Some cv \<Rightarrow> Inr (map (\<lambda>(i, pairs). (i, var)) cv))"

text \<open>The \<open>for\<close> loop of \<open>inference\<close>: the arcs it appends for the popped arc
  \<open>(xi, xj)\<close>.\<close>

definition requeue ::
  "'n name \<Rightarrow> 'n name \<Rightarrow> ('n name \<times> 'n name) list \<Rightarrow> ('n name \<times> 'n name) list" where
  "requeue xi xj arcs = map (\<lambda>(xk, y). (xk, xi)) (filter (\<lambda>(xk, y). xk \<noteq> xj) arcs)"

text \<open>\<^verbatim>\<open>CSP.inference\<close> on a worklist of pairs of name objects.\<close>

function inference_obj ::
  "('n name, 'v) csp \<Rightarrow> ('n, 'v list) dict \<Rightarrow> ('n name \<times> 'n name) list \<Rightarrow>
     error + (('n, 'v list) dict \<times> bool)" where
  "inference_obj ocsp assignment queue =
     (if queue = [] then Inr (assignment, True)
      else
        (case last queue of (xi, xj) \<Rightarrow>
          (case revise (names ocsp) assignment (chars xi) (chars xj) of
             Inl e \<Rightarrow> Inl e
           | Inr (assignment', revised) \<Rightarrow>
               if revised then
                 (case map_of assignment' (chars xi) of
                    None \<Rightarrow> Inl KeyError
                  | Some d \<Rightarrow>
                      if length d = 0 then Inr (assignment', False)
                      else
                        (case get_all_neighboring_arcs_obj ocsp xi of
                           Inl e \<Rightarrow> Inl e
                         | Inr arcs \<Rightarrow>
                             inference_obj ocsp assignment'
                               (butlast queue @ requeue xi xj arcs)))
               else inference_obj ocsp assignment' (butlast queue))))"
  by pat_completeness auto
termination
proof (relation "measures [\<lambda>(ocsp, a, q). total_size a, \<lambda>(ocsp, a, q). length q]", goal_cases)
  case 1
  show ?case by simp
next
  case 2
  then show ?case by (auto dest: revise_shrinks)
next
  case 3
  then show ?case by (auto dest: revise_unchanged)
qed

declare inference_obj.simps [simp del]

lemma map_of_by_chars:
  "map_of (by_chars d) k = Some x \<Longrightarrow> \<exists>xk. chars xk = k \<and> (xk, x) \<in> set d"
  by (induction d) (auto simp: by_chars_def split: if_splits)

lemma by_chars_keys:
  "(xk, x) \<in> set d \<Longrightarrow> map_of (by_chars d) (chars xk) \<noteq> None"
  by (induction d) (auto simp: by_chars_def)

lemma by_chars_dom:
  "map_of (by_chars d) k \<noteq> None \<longleftrightarrow> k \<in> chars ` fst ` set d"
  by (induction d) (auto simp: by_chars_def)

lemma map_of_by_chars_map:
  "map_of (by_chars (map (\<lambda>(k, ci). (k, f ci)) d)) i = map_option f (map_of (by_chars d) i)"
  by (induction d) (auto simp: by_chars_def)

lemma constraints_names:
  "map_of (constraints (names ocsp)) i =
     map_option by_chars (map_of (by_chars (constraints ocsp)) i)"
  by (simp add: names_def map_of_by_chars_map)

lemma constraint_of_names:
  "map_of (by_chars (constraints ocsp)) i = Some ci \<Longrightarrow>
   constraint_of (names ocsp) i k = map_of (by_chars ci) k"
  by (simp add: constraint_of_def constraints_names)

lemma find_inconsistencies_None:
  "find_inconsistencies None dj di = Inr incs \<Longrightarrow> incs = di"
proof (induction di arbitrary: incs)
  case Nil
  then show ?case by simp
next
  case (Cons x di)
  from Cons.prems obtain js where js: "dj = Some js" by (cases dj) auto
  from Cons.prems js have "js = []" by (cases js) (auto split: sum.splits)
  with Cons js show ?case by (auto split: sum.splits)
qed

lemma revise_kept_registered:
  assumes "revise csp a i j = Inr (a', True)" "map_of a' i = Some d" "d \<noteq> []"
  shows "constraint_of csp i j \<noteq> None"
proof
  assume c: "constraint_of csp i j = None"
  from assms(1) obtain di incs di' where
    di: "map_of a i = Some di"
    and incs: "find_inconsistencies (constraint_of csp i j) (map_of a j) di = Inr incs"
    and rm: "remove_values incs di = Inr di'"
    and a': "a' = AList.update i di' a"
    by (auto simp: revise_def split: option.splits sum.splits)
  from incs c have "incs = di" by (simp add: find_inconsistencies_None)
  with remove_values_length [OF rm] have "di' = []" by simp
  with a' assms(2,3) show False by (simp add: update_Some_unfold)
qed

text \<open>Where every name in play is held by one object, the identity test is the
  inequality of names and the loop is \<open>inference\<close> of the first section.\<close>

definition key_objects :: "('n name, 'v) csp \<Rightarrow> 'n name set" where
  "key_objects ocsp = (\<Union>(k, ci) \<in> set (constraints ocsp). fst ` set ci)"

lemma neighboring_arcs_names:
  "get_all_neighboring_arcs (names ocsp) (chars xi) =
     map_sum id (map (\<lambda>(x, y). (chars x, chars y))) (get_all_neighboring_arcs_obj ocsp xi)"
  by (auto simp: get_all_neighboring_arcs_def get_all_neighboring_arcs_obj_def constraints_names
      by_chars_def split: option.splits)

lemma neighboring_arcs_objects:
  assumes "get_all_neighboring_arcs_obj ocsp xi = Inr arcs"
  shows "fst ` set arcs \<subseteq> key_objects ocsp"
proof -
  from assms obtain ci where ci: "map_of (by_chars (constraints ocsp)) (chars xi) = Some ci"
    and arcs: "arcs = map (\<lambda>(i, pairs). (i, xi)) ci"
    by (auto simp: get_all_neighboring_arcs_obj_def split: option.splits)
  from map_of_by_chars [OF ci] obtain k where "(k, ci) \<in> set (constraints ocsp)" by blast
  with arcs show ?thesis by (force simp: key_objects_def)
qed

lemma requeue_shared:
  assumes "inj_on chars S" "xj \<in> S" "fst ` set arcs \<subseteq> S"
  shows "map (\<lambda>(x, y). (chars x, chars y)) (requeue xi xj arcs) =
         map (\<lambda>(xk, y). (xk, chars xi))
           (filter (\<lambda>(xk, y). xk \<noteq> chars xj) (map (\<lambda>(x, y). (chars x, chars y)) arcs))"
  using assms(3)
proof (induction arcs)
  case Nil
  then show ?case by (simp add: requeue_def)
next
  case (Cons arc arcs)
  obtain xk y where arc: "arc = (xk, y)" by (cases arc)
  with Cons.prems have "xk \<in> S" by simp
  with assms(1,2) have "xk \<noteq> xj \<longleftrightarrow> chars xk \<noteq> chars xj" by (auto dest: inj_onD)
  with Cons arc show ?case by (simp add: requeue_def)
qed

lemma inference_obj_step:
  assumes "last q = (xi, xj)" "q \<noteq> []"
  shows "inference_obj ocsp a q =
     (case revise (names ocsp) a (chars xi) (chars xj) of
        Inl e \<Rightarrow> Inl e
      | Inr (a', revised) \<Rightarrow>
          if revised then
            (case map_of a' (chars xi) of
               None \<Rightarrow> Inl KeyError
             | Some d \<Rightarrow>
                 if length d = 0 then Inr (a', False)
                 else
                   (case get_all_neighboring_arcs_obj ocsp xi of
                      Inl e \<Rightarrow> Inl e
                    | Inr arcs \<Rightarrow> inference_obj ocsp a' (butlast q @ requeue xi xj arcs)))
          else inference_obj ocsp a' (butlast q))"
  using assms by (subst inference_obj.simps) simp

lemma inference_step:
  assumes "last q = (xi, xj)" "q \<noteq> []"
  shows "inference csp a q =
     (case revise csp a xi xj of
        Inl e \<Rightarrow> Inl e
      | Inr (a', revised) \<Rightarrow>
          if revised then
            (case map_of a' xi of
               None \<Rightarrow> Inl KeyError
             | Some d \<Rightarrow>
                 if length d = 0 then Inr (a', False)
                 else
                   (case get_all_neighboring_arcs csp xi of
                      Inl e \<Rightarrow> Inl e
                    | Inr arcs \<Rightarrow>
                        inference csp a'
                          (butlast q @
                           map (\<lambda>(xk, y). (xk, xi)) (filter (\<lambda>(xk, y). xk \<noteq> xj) arcs))))
          else inference csp a' (butlast q))"
  using assms by (subst inference.simps) simp

lemma inference_obj_shared:
  assumes "inj_on chars S" "key_objects ocsp \<subseteq> S" "fst ` set q \<union> snd ` set q \<subseteq> S"
  shows "inference_obj ocsp a q = inference (names ocsp) a (map (\<lambda>(x, y). (chars x, chars y)) q)"
  using assms(2,3)
proof (induction ocsp a q rule: inference_obj.induct)
  case (1 ocsp a q)
  let ?f = "\<lambda>(x, y). (chars x, chars y)"
  show ?case
  proof (cases "q = []")
    case True
    then show ?thesis
      by (simp add: inference_obj.simps [of ocsp a "[]"] inference.simps [of "names ocsp" a "[]"])
  next
    case False
    obtain xi xj where l: "last q = (xi, xj)" by (cases "last q")
    from False l have lm: "last (map ?f q) = (chars xi, chars xj)" by (simp add: last_map)
    from False have ne': "map ?f q \<noteq> []" by simp
    have bm: "butlast (map ?f q) = map ?f (butlast q)" by (simp add: map_butlast)
    note lhs = inference_obj_step [OF l False, of ocsp a]
    note rhs = inference_step [OF lm ne', of "names ocsp" a, unfolded bm]
    from False l have "(xi, xj) \<in> set q" by (metis last_in_set)
    with "1.prems"(2) have xi: "xi \<in> S" and xj: "xj \<in> S" by force+
    from "1.prems"(2) have bl: "fst ` set (butlast q) \<union> snd ` set (butlast q) \<subseteq> S"
      by (force dest: in_set_butlastD)
    show ?thesis
    proof (cases "revise (names ocsp) a (chars xi) (chars xj)")
      case (Inl e)
      then show ?thesis unfolding lhs rhs by simp
    next
      case (Inr r)
      note rev = this
      obtain a' revised where r: "r = (a', revised)" by (cases r)
      show ?thesis
      proof (cases revised)
        case False
        note nr = this
        from "1.IH"(2) [OF \<open>q \<noteq> []\<close> l [symmetric] rev r [symmetric] nr "1.prems"(1) bl]
        have "inference_obj ocsp a' (butlast q) = inference (names ocsp) a' (map ?f (butlast q))" .
        with rev r nr show ?thesis unfolding lhs rhs by simp
      next
        case True
        note rv = this
        show ?thesis
        proof (cases "map_of a' (chars xi)")
          case None
          with rev r rv show ?thesis unfolding lhs rhs by simp
        next
          case (Some d)
          show ?thesis
          proof (cases "length d = 0")
            case True
            with Some rev r rv show ?thesis unfolding lhs rhs by simp
          next
            case False
            note ne = this
            show ?thesis
            proof (cases "get_all_neighboring_arcs_obj ocsp xi")
              case (Inl e)
              with ne Some rev r rv show ?thesis
                unfolding lhs rhs by (simp add: neighboring_arcs_names)
            next
              case (Inr arcs)
              note arcs = this
              from neighboring_arcs_objects [OF arcs] "1.prems"(1)
              have ks: "fst ` set arcs \<subseteq> S" by blast
              have "fst ` set (requeue xi xj arcs) \<subseteq> S" "snd ` set (requeue xi xj arcs) \<subseteq> S"
                using ks xi by (auto simp: requeue_def)
              with bl have q': "fst ` set (butlast q @ requeue xi xj arcs)
                  \<union> snd ` set (butlast q @ requeue xi xj arcs) \<subseteq> S"
                by auto
              from "1.IH"(1) [OF \<open>q \<noteq> []\<close> l [symmetric] rev r [symmetric] rv Some ne arcs "1.prems"(1) q']
              have "inference_obj ocsp a' (butlast q @ requeue xi xj arcs)
                = inference (names ocsp) a' (map ?f (butlast q @ requeue xi xj arcs))" .
              with ne Some rev r rv arcs requeue_shared [OF assms(1) xj ks, of xi]
              show ?thesis
                unfolding lhs rhs by (simp add: neighboring_arcs_names)
            qed
          qed
        qed
      qed
    qed
  qed
qed

text \<open>A row of three cells built the way \<^verbatim>\<open>create_sudoku_csp\<close> builds the board:
  \<open>add_variable\<close> receives the strings at the addresses 0, 1, 2, which become the keys of
  \<open>domains\<close> and \<open>constraints\<close>; \<open>add_all_different_constraint\<close> receives a list of
  newly formatted strings, at the addresses 3, 4, 5, which become the keys of the inner
  tables.\<close>

definition row_network :: "(string, int) csp" where
  "row_network =
     \<lparr>variables = [''0-0'', ''0-1'', ''0-2''],
      domains = [(''0-0'', [1, 2, 3]), (''0-1'', [1, 2, 3]), (''0-2'', [1, 2, 3])],
      constraints =
        [(''0-0'', [(''0-1'', [(1, 2), (1, 3), (2, 1), (2, 3), (3, 1), (3, 2)]),
                    (''0-2'', [(1, 2), (1, 3), (2, 1), (2, 3), (3, 1), (3, 2)])]),
         (''0-1'', [(''0-0'', [(1, 2), (1, 3), (2, 1), (2, 3), (3, 1), (3, 2)]),
                    (''0-2'', [(1, 2), (1, 3), (2, 1), (2, 3), (3, 1), (3, 2)])]),
         (''0-2'', [(''0-0'', [(1, 2), (1, 3), (2, 1), (2, 3), (3, 1), (3, 2)]),
                    (''0-1'', [(1, 2), (1, 3), (2, 1), (2, 3), (3, 1), (3, 2)])])],
      backtracking_call_counter = 0, backtracking_fail_counter = 0\<rparr>"

lemma row_network_built:
  "add_all_different_constraint [''0-0'', ''0-1'', ''0-2'']
     (add_variable ''0-2'' [1, 2, 3]
       (add_variable ''0-1'' [1, 2, 3] (add_variable ''0-0'' [1, 2, 3] CSP_init)))
   = Inr row_network"
  by (simp add: row_network_def add_all_different_constraint_def get_all_possible_pairs_def
      add_constraint_one_way_def add_variable_def CSP_init_def)

definition row_objects :: "(string name, int) csp" where
  "row_objects =
     \<lparr>variables = [Name 0 ''0-0'', Name 1 ''0-1'', Name 2 ''0-2''],
      domains = [(Name 0 ''0-0'', [1, 2, 3]), (Name 1 ''0-1'', [1, 2, 3]),
                 (Name 2 ''0-2'', [1, 2, 3])],
      constraints =
        [(Name 0 ''0-0'',
            [(Name 4 ''0-1'', [(1, 2), (1, 3), (2, 1), (2, 3), (3, 1), (3, 2)]),
             (Name 5 ''0-2'', [(1, 2), (1, 3), (2, 1), (2, 3), (3, 1), (3, 2)])]),
         (Name 1 ''0-1'',
            [(Name 3 ''0-0'', [(1, 2), (1, 3), (2, 1), (2, 3), (3, 1), (3, 2)]),
             (Name 5 ''0-2'', [(1, 2), (1, 3), (2, 1), (2, 3), (3, 1), (3, 2)])]),
         (Name 2 ''0-2'',
            [(Name 3 ''0-0'', [(1, 2), (1, 3), (2, 1), (2, 3), (3, 1), (3, 2)]),
             (Name 4 ''0-1'', [(1, 2), (1, 3), (2, 1), (2, 3), (3, 1), (3, 2)])])],
      backtracking_call_counter = 0, backtracking_fail_counter = 0\<rparr>"

lemma row_objects_names: "names row_objects = row_network"
  by (simp add: names_def by_chars_def row_objects_def row_network_def)

text \<open>Three variables with one-character names, which are shared objects:
  \<open>I \<noteq> J\<close> registered in both directions and \<open>K \<noteq> I\<close> registered from \<open>K\<close> only.\<close>

definition oneway_network :: "(string, int) csp" where
  "oneway_network =
     \<lparr>variables = [''I'', ''J'', ''K''],
      domains = [(''I'', [1, 2]), (''J'', [1]), (''K'', [2])],
      constraints =
        [(''I'', [(''J'', [(2, 1)])]),
         (''J'', [(''I'', [(1, 2)])]),
         (''K'', [(''I'', [(2, 1)])])],
      backtracking_call_counter = 0, backtracking_fail_counter = 0\<rparr>"

lemma oneway_network_built:
  "(case add_constraint_one_way ''I'' ''J'' (\<lambda>x y. x \<noteq> y)
           (add_variable ''K'' [2] (add_variable ''J'' [1] (add_variable ''I'' [1, 2] CSP_init))) of
      Inl e \<Rightarrow> Inl e
    | Inr c1 \<Rightarrow>
        (case add_constraint_one_way ''J'' ''I'' (\<lambda>x y. x \<noteq> y) c1 of
           Inl e \<Rightarrow> Inl e
         | Inr c2 \<Rightarrow> add_constraint_one_way ''K'' ''I'' (\<lambda>x y. x \<noteq> y) c2))
   = Inr oneway_network"
  by (simp add: oneway_network_def get_all_possible_pairs_def
      add_constraint_one_way_def add_variable_def CSP_init_def)

definition oneway_objects :: "(string name, int) csp" where
  "oneway_objects =
     \<lparr>variables = [Name 0 ''I'', Name 1 ''J'', Name 2 ''K''],
      domains = [(Name 0 ''I'', [1, 2]), (Name 1 ''J'', [1]), (Name 2 ''K'', [2])],
      constraints =
        [(Name 0 ''I'', [(Name 1 ''J'', [(2, 1)])]),
         (Name 1 ''J'', [(Name 0 ''I'', [(1, 2)])]),
         (Name 2 ''K'', [(Name 0 ''I'', [(2, 1)])])],
      backtracking_call_counter = 0, backtracking_fail_counter = 0\<rparr>"

lemma oneway_objects_names: "names oneway_objects = oneway_network"
  by (simp add: names_def by_chars_def oneway_objects_def oneway_network_def)

lemmas obj_run_simps = inference_obj.simps get_all_neighboring_arcs_obj_def requeue_def
  names_def by_chars_def revise_def constraint_of_def list_remove_def

text \<open>
  Claim C6, as stated, fails for the arcs that point at \<open>i\<close>. On the network where
  \<open>K \<noteq> I\<close> is registered from \<open>K\<close> only, the loop pops \<open>(K, I)\<close> and \<open>(J, I)\<close>, which
  remove nothing, then \<open>(I, J)\<close>, which removes 1 from \<open>I\<close> and leaves it non-empty. The
  arcs it appends are those of the keys of \<open>constraints[I]\<close>, which are \<open>J\<close> alone: the
  registered arc \<open>(K, I)\<close>, from a variable other than \<open>J\<close>, is not pushed, and the loop
  returns success on a state in which the value 2 of \<open>K\<close> has lost its support.
\<close>

theorem inference_one_way_counterexample:
  "inference_obj oneway_objects [(''I'', [1, 2]), (''J'', [1]), (''K'', [2])]
       [(Name 0 ''I'', Name 1 ''J''), (Name 1 ''J'', Name 0 ''I''), (Name 2 ''K'', Name 0 ''I'')]
     = Inr ([(''I'', [2]), (''J'', [1]), (''K'', [2])], True)
   \<and> inference_obj oneway_objects [(''I'', [1, 2]), (''J'', [1]), (''K'', [2])]
       [(Name 0 ''I'', Name 1 ''J'')]
     = Inr ([(''I'', [2]), (''J'', [1]), (''K'', [2])], True)
   \<and> get_all_neighboring_arcs_obj oneway_objects (Name 0 ''I'')
     = Inr [(Name 1 ''J'', Name 0 ''I'')]
   \<and> requeue (Name 0 ''I'') (Name 1 ''J'') [(Name 1 ''J'', Name 0 ''I'')] = []
   \<and> constraint_of (names oneway_objects) ''K'' ''I'' = Some [(2, 1)]
   \<and> revise (names oneway_objects) [(''I'', [2]), (''J'', [1]), (''K'', [2])] ''K'' ''I''
     = Inr ([(''I'', [2]), (''J'', [1]), (''K'', [])], True)"
  by (simp add: obj_run_simps oneway_objects_def)

lemma requeue_set:
  "set (requeue xi xj (map (\<lambda>(i, pairs). (i, xi)) ci)) = {(xk, xi) | xk. xk \<in> fst ` set ci \<and> xk \<noteq> xj}"
  by (force simp: requeue_def)

lemma revise_registered_keys:
  assumes "revise (names ocsp) a (chars xi) (chars xj) = Inr (a', True)"
    and "map_of a' (chars xi) = Some d" and "d \<noteq> []"
  obtains ci where "map_of (by_chars (constraints ocsp)) (chars xi) = Some ci"
proof -
  from revise_kept_registered [OF assms]
  have "map_of (constraints (names ocsp)) (chars xi) \<noteq> None"
    by (auto simp: constraint_of_def split: option.splits)
  then show ?thesis using that by (auto simp: constraints_names)
qed

text \<open>
  Claim C6, amended. One round of the AC-3 loop on the popped arc \<open>(i, j)\<close>, the last of
  the worklist. The empty worklist returns success. If \<open>revise\<close> removed a value and the
  domain of \<open>i\<close> is now empty, the loop returns failure at once, whatever is left in the
  worklist. If it removed a value and the domain is not empty, \<open>constraints[i]\<close> exists and
  the loop continues with the arcs \<open>(k, i)\<close> appended for the key objects \<open>k\<close> of
  \<open>constraints[i]\<close> that are not the object \<open>j\<close>: every key whose name differs from that
  of \<open>j\<close> is among them, nothing but such keys is, and the key named like \<open>j\<close> is pushed
  too when it is another object. Where every constraint that points at \<open>i\<close> is also
  registered from \<open>i\<close>, every registered arc \<open>(k, i)\<close> with \<open>k\<close> other than \<open>j\<close> is pushed.
\<close>

theorem inference_requeues:
  fixes ocsp :: "('n name, 'v) csp"
  shows "inference_obj ocsp assignment [] = Inr (assignment, True)
   \<and> (revise (names ocsp) assignment (chars xi) (chars xj) = Inr (assignment', True) \<longrightarrow>
        map_of assignment' (chars xi) = Some [] \<longrightarrow>
        inference_obj ocsp assignment (queue @ [(xi, xj)]) = Inr (assignment', False))
   \<and> (revise (names ocsp) assignment (chars xi) (chars xj) = Inr (assignment', True) \<longrightarrow>
        map_of assignment' (chars xi) = Some d \<longrightarrow> d \<noteq> [] \<longrightarrow>
        (\<exists>arcs. get_all_neighboring_arcs_obj ocsp xi = Inr arcs
           \<and> inference_obj ocsp assignment (queue @ [(xi, xj)])
               = inference_obj ocsp assignment' (queue @ requeue xi xj arcs)
           \<and> (\<forall>k. k \<noteq> chars xj \<longrightarrow> constraint_of (names ocsp) (chars xi) k \<noteq> None \<longrightarrow>
                  (\<exists>xk. chars xk = k \<and> (xk, xi) \<in> set (requeue xi xj arcs)))
           \<and> (\<forall>xk. (xk, xi) \<in> set arcs \<longrightarrow> xk \<noteq> xj \<longrightarrow>
                  (xk, xi) \<in> set (requeue xi xj arcs))
           \<and> (\<forall>xk y. (xk, y) \<in> set (requeue xi xj arcs) \<longrightarrow>
                  y = xi \<and> xk \<noteq> xj \<and> constraint_of (names ocsp) (chars xi) (chars xk) \<noteq> None)
           \<and> ((\<forall>k. constraint_of (names ocsp) k (chars xi) \<noteq> None \<longrightarrow>
                     constraint_of (names ocsp) (chars xi) k \<noteq> None) \<longrightarrow>
                (\<forall>k. k \<noteq> chars xj \<longrightarrow> constraint_of (names ocsp) k (chars xi) \<noteq> None \<longrightarrow>
                   (\<exists>xk. chars xk = k \<and> (xk, xi) \<in> set (requeue xi xj arcs))))))"
proof (intro conjI impI)
  show "inference_obj ocsp assignment [] = Inr (assignment, True)"
    by (simp add: inference_obj.simps [of ocsp assignment "[]"])
next
  assume "revise (names ocsp) assignment (chars xi) (chars xj) = Inr (assignment', True)"
    and "map_of assignment' (chars xi) = Some []"
  then show "inference_obj ocsp assignment (queue @ [(xi, xj)]) = Inr (assignment', False)"
    by (simp add: inference_obj_step [of "queue @ [(xi, xj)]" xi xj])
next
  assume r: "revise (names ocsp) assignment (chars xi) (chars xj) = Inr (assignment', True)"
    and d: "map_of assignment' (chars xi) = Some d" and ne: "d \<noteq> []"
  from revise_registered_keys [OF r d ne]
  obtain ci where ci: "map_of (by_chars (constraints ocsp)) (chars xi) = Some ci" .
  let ?arcs = "map (\<lambda>(i, pairs). (i, xi)) ci"
  have arcs: "get_all_neighboring_arcs_obj ocsp xi = Inr ?arcs"
    by (simp add: get_all_neighboring_arcs_obj_def ci)
  have step: "inference_obj ocsp assignment (queue @ [(xi, xj)])
      = inference_obj ocsp assignment' (queue @ requeue xi xj ?arcs)"
    using r d ne arcs by (simp add: inference_obj_step [of "queue @ [(xi, xj)]" xi xj])
  have keys: "\<exists>xk. chars xk = k \<and> (xk, xi) \<in> set (requeue xi xj ?arcs)"
    if "k \<noteq> chars xj" "constraint_of (names ocsp) (chars xi) k \<noteq> None" for k
  proof -
    from that(2) obtain pairs where "map_of (by_chars ci) k = Some pairs"
      by (auto simp: constraint_of_names [OF ci])
    from map_of_by_chars [OF this] obtain xk where xk: "chars xk = k" "(xk, pairs) \<in> set ci"
      by blast
    with that(1) have "xk \<noteq> xj" by auto
    with xk have "(xk, xi) \<in> set (requeue xi xj ?arcs)" by (force simp: requeue_set)
    with xk(1) show ?thesis by blast
  qed
  have objects: "(xk, xi) \<in> set (requeue xi xj ?arcs)"
    if "(xk, xi) \<in> set ?arcs" "xk \<noteq> xj" for xk
    using that by (force simp: requeue_set)
  have nothing_else: "y = xi \<and> xk \<noteq> xj \<and> constraint_of (names ocsp) (chars xi) (chars xk) \<noteq> None"
    if "(xk, y) \<in> set (requeue xi xj ?arcs)" for xk y
  proof -
    from that have "y = xi" "xk \<noteq> xj" and "xk \<in> fst ` set ci" by (auto simp: requeue_set)
    then obtain pairs where "(xk, pairs) \<in> set ci" by auto
    from by_chars_keys [OF this] have "constraint_of (names ocsp) (chars xi) (chars xk) \<noteq> None"
      by (simp add: constraint_of_names [OF ci])
    with \<open>y = xi\<close> \<open>xk \<noteq> xj\<close> show ?thesis by simp
  qed
  from arcs step keys objects nothing_else
  show "\<exists>arcs. get_all_neighboring_arcs_obj ocsp xi = Inr arcs
           \<and> inference_obj ocsp assignment (queue @ [(xi, xj)])
               = inference_obj ocsp assignment' (queue @ requeue xi xj arcs)
           \<and> (\<forall>k. k \<noteq> chars xj \<longrightarrow> constraint_of (names ocsp) (chars xi) k \<noteq> None \<longrightarrow>
                  (\<exists>xk. chars xk = k \<and> (xk, xi) \<in> set (requeue xi xj arcs)))
           \<and> (\<forall>xk. (xk, xi) \<in> set arcs \<longrightarrow> xk \<noteq> xj \<longrightarrow>
                  (xk, xi) \<in> set (requeue xi xj arcs))
           \<and> (\<forall>xk y. (xk, y) \<in> set (requeue xi xj arcs) \<longrightarrow>
                  y = xi \<and> xk \<noteq> xj \<and> constraint_of (names ocsp) (chars xi) (chars xk) \<noteq> None)
           \<and> ((\<forall>k. constraint_of (names ocsp) k (chars xi) \<noteq> None \<longrightarrow>
                     constraint_of (names ocsp) (chars xi) k \<noteq> None) \<longrightarrow>
                (\<forall>k. k \<noteq> chars xj \<longrightarrow> constraint_of (names ocsp) k (chars xi) \<noteq> None \<longrightarrow>
                   (\<exists>xk. chars xk = k \<and> (xk, xi) \<in> set (requeue xi xj arcs))))"
    by (intro exI [of _ ?arcs] conjI) blast+
qed

theorem inference_requeues_witness:
  "inference_obj row_objects [(''0-0'', [2]), (''0-1'', [2]), (''0-2'', [1, 2, 3])]
       ([(Name 5 ''0-2'', Name 1 ''0-1'')] @ [(Name 3 ''0-0'', Name 1 ''0-1'')])
     = Inr ([(''0-0'', []), (''0-1'', [2]), (''0-2'', [1, 2, 3])], False)
   \<and> inference_obj row_objects [(''0-0'', [1, 2, 3]), (''0-1'', [2]), (''0-2'', [1, 2, 3])]
       ([(Name 3 ''0-0'', Name 1 ''0-1'')] @ [(Name 5 ''0-2'', Name 1 ''0-1'')])
     = inference_obj row_objects [(''0-0'', [1, 2, 3]), (''0-1'', [2]), (''0-2'', [1, 3])]
         [(Name 3 ''0-0'', Name 1 ''0-1''), (Name 3 ''0-0'', Name 5 ''0-2''),
          (Name 4 ''0-1'', Name 5 ''0-2'')]
   \<and> (\<exists>xk. chars xk = ''0-0''
         \<and> (xk, Name 5 ''0-2'') \<in> set [(Name 3 ''0-0'', Name 5 ''0-2''),
                                         (Name 4 ''0-1'', Name 5 ''0-2'')])"
proof -
  let ?a1 = "[(''0-0'', [2]), (''0-1'', [2]), (''0-2'', [1, 2, 3])] :: (string, int list) dict"
  let ?a1' = "[(''0-0'', []), (''0-1'', [2]), (''0-2'', [1, 2, 3])] :: (string, int list) dict"
  let ?a2 = "[(''0-0'', [1, 2, 3]), (''0-1'', [2]), (''0-2'', [1, 2, 3])] :: (string, int list) dict"
  let ?a2' = "[(''0-0'', [1, 2, 3]), (''0-1'', [2]), (''0-2'', [1, 3])] :: (string, int list) dict"
  let ?pushed = "[(Name 3 ''0-0'', Name 5 ''0-2''), (Name 4 ''0-1'', Name 5 ''0-2'')]"
  have r1: "revise (names row_objects) ?a1 (chars (Name 3 ''0-0'')) (chars (Name 1 ''0-1''))
      = Inr (?a1', True)"
    by (simp add: row_objects_names revise_def constraint_of_def row_network_def list_remove_def)
  have r2: "revise (names row_objects) ?a2 (chars (Name 5 ''0-2'')) (chars (Name 1 ''0-1''))
      = Inr (?a2', True)"
    by (simp add: row_objects_names revise_def constraint_of_def row_network_def list_remove_def)
  have d1: "map_of ?a1' (chars (Name 3 ''0-0'')) = Some []" by simp
  have d2: "map_of ?a2' (chars (Name 5 ''0-2'')) = Some [1, 3]" by simp
  have both: "\<forall>k. constraint_of (names row_objects) k (chars (Name 5 ''0-2'')) \<noteq> None \<longrightarrow>
      constraint_of (names row_objects) (chars (Name 5 ''0-2'')) k \<noteq> None"
    by (simp add: row_objects_names constraint_of_def row_network_def)
  have reg: "constraint_of (names row_objects) ''0-0'' (chars (Name 5 ''0-2'')) \<noteq> None"
    by (simp add: row_objects_names constraint_of_def row_network_def)
  have arcs: "get_all_neighboring_arcs_obj row_objects (Name 5 ''0-2'')
      = Inr [(Name 3 ''0-0'', Name 5 ''0-2''), (Name 4 ''0-1'', Name 5 ''0-2'')]"
    by (simp add: get_all_neighboring_arcs_obj_def by_chars_def row_objects_def)
  have rq: "requeue (Name 5 ''0-2'') (Name 1 ''0-1'')
      [(Name 3 ''0-0'', Name 5 ''0-2''), (Name 4 ''0-1'', Name 5 ''0-2'')] = ?pushed"
    by (simp add: requeue_def)
  have ne: "[1, 3] \<noteq> ([] :: int list)" by simp
  note wiped = inference_requeues [where ocsp = row_objects and assignment = ?a1
      and xi = "Name 3 ''0-0''" and xj = "Name 1 ''0-1''" and assignment' = ?a1'
      and queue = "[(Name 5 ''0-2'', Name 1 ''0-1'')]",
      THEN conjunct2, THEN conjunct1, rule_format, OF r1 d1]
  note pushed = inference_requeues [where ocsp = row_objects and assignment = ?a2
      and xi = "Name 5 ''0-2''" and xj = "Name 1 ''0-1''" and assignment' = ?a2'
      and queue = "[(Name 3 ''0-0'', Name 1 ''0-1'')]" and d = "[1, 3]",
      THEN conjunct2, THEN conjunct2, rule_format, OF r2 d2 ne]
  from pushed obtain nbs where nbs: "get_all_neighboring_arcs_obj row_objects (Name 5 ''0-2'') = Inr nbs"
    and run: "inference_obj row_objects ?a2
         ([(Name 3 ''0-0'', Name 1 ''0-1'')] @ [(Name 5 ''0-2'', Name 1 ''0-1'')])
       = inference_obj row_objects ?a2'
           ([(Name 3 ''0-0'', Name 1 ''0-1'')] @ requeue (Name 5 ''0-2'') (Name 1 ''0-1'') nbs)"
    and pointing: "(\<forall>k. constraint_of (names row_objects) k (chars (Name 5 ''0-2'')) \<noteq> None \<longrightarrow>
                     constraint_of (names row_objects) (chars (Name 5 ''0-2'')) k \<noteq> None) \<longrightarrow>
                (\<forall>k. k \<noteq> chars (Name 1 ''0-1'') \<longrightarrow>
                   constraint_of (names row_objects) k (chars (Name 5 ''0-2'')) \<noteq> None \<longrightarrow>
                   (\<exists>xk. chars xk = k \<and>
                     (xk, Name 5 ''0-2'') \<in> set (requeue (Name 5 ''0-2'') (Name 1 ''0-1'') nbs)))"
    by (elim exE conjE)
  from nbs arcs have nbs_eq: "nbs = [(Name 3 ''0-0'', Name 5 ''0-2''), (Name 4 ''0-1'', Name 5 ''0-2'')]"
    by simp
  from run have 2: "inference_obj row_objects ?a2
         ([(Name 3 ''0-0'', Name 1 ''0-1'')] @ [(Name 5 ''0-2'', Name 1 ''0-1'')])
       = inference_obj row_objects ?a2'
           [(Name 3 ''0-0'', Name 1 ''0-1''), (Name 3 ''0-0'', Name 5 ''0-2''),
            (Name 4 ''0-1'', Name 5 ''0-2'')]"
    unfolding nbs_eq rq by simp
  have other: "''0-0'' \<noteq> chars (Name 1 ''0-1'')" by simp
  from pointing [rule_format, OF both [rule_format] other reg]
  have 3: "\<exists>xk. chars xk = ''0-0'' \<and> (xk, Name 5 ''0-2'') \<in> set ?pushed"
    unfolding nbs_eq rq .
  from wiped 2 3 show ?thesis by (intro conjI)
qed

section \<open>Selecting a variable\<close>

lemma select_loop_None:
  "select_loop a ks = None \<longleftrightarrow> (\<forall>k\<in>set ks. \<not> len_of a k > 1)"
  by (induction ks) auto

lemma assignment_done_loop_iff:
  "assignment_done_loop a ks \<longleftrightarrow> (\<forall>k\<in>set ks. \<not> len_of a k > 1)"
  by (induction ks) auto

lemma len_of_gt1:
  "len_of a k > 1 \<longleftrightarrow> (\<exists>d. map_of a k = Some d \<and> length d > 1)"
  by (auto simp: len_of_def split: option.splits)

lemma key_of_lookup: "map_of a k = Some d \<Longrightarrow> k \<in> set (map fst a)"
  by (metis map_of_eq_None_iff option.distinct(1) set_map)

lemma select_None_iff:
  "select_unassigned_variable a = None \<longleftrightarrow> \<not> (\<exists>k d. map_of a k = Some d \<and> length d > 1)"
  unfolding select_unassigned_variable_def select_loop_None len_of_gt1
  by (blast dest: key_of_lookup)

lemma assignment_done_iff:
  "assignment_done a \<longleftrightarrow> \<not> (\<exists>k d. map_of a k = Some d \<and> length d > 1)"
  unfolding assignment_done_def assignment_done_loop_iff len_of_gt1
  by (blast dest: key_of_lookup)

text \<open>
  Claim C10. If some variable's domain has more than one value, which is the case
  whenever \<open>assignment_done\<close> is false, \<open>select_unassigned_variable\<close> returns a variable
  whose domain has more than one value; it returns \<open>None\<close> exactly when no domain has
  more than one value.
\<close>

theorem select_unassigned_variable_undecided:
  "((\<exists>k d. map_of assignment k = Some d \<and> length d > 1) \<longrightarrow>
      (\<exists>v d. select_unassigned_variable assignment = Some v
             \<and> map_of assignment v = Some d \<and> length d > 1))
   \<and> (select_unassigned_variable assignment = None \<longleftrightarrow>
        \<not> (\<exists>k d. map_of assignment k = Some d \<and> length d > 1))
   \<and> (\<not> assignment_done assignment \<longrightarrow>
        (\<exists>v d. select_unassigned_variable assignment = Some v
             \<and> map_of assignment v = Some d \<and> length d > 1))"
proof -
  have found: "\<exists>v d. select_unassigned_variable assignment = Some v
      \<and> map_of assignment v = Some d \<and> length d > 1"
    if "\<exists>k d. map_of assignment k = Some d \<and> length d > 1"
  proof -
    from that have "select_unassigned_variable assignment \<noteq> None"
      by (simp add: select_None_iff)
    then obtain v where "select_unassigned_variable assignment = Some v" by auto
    with select_Some [OF this] show ?thesis by simp
  qed
  then show ?thesis
    using select_None_iff [of assignment] assignment_done_iff [of assignment] by blast
qed

theorem select_unassigned_variable_undecided_witness:
  "select_unassigned_variable [(''X'', [1::int]), (''Y'', [2, 3]), (''Z'', [1, 2, 3])] = Some ''Y''
   \<and> \<not> assignment_done [(''X'', [1::int]), (''Y'', [2, 3]), (''Z'', [1, 2, 3])]
   \<and> select_unassigned_variable [(''A'', [1::int]), (''B'', [])] = None"
  using select_unassigned_variable_undecided
    [of "[(''X'', [1::int]), (''Y'', [2, 3]), (''Z'', [1, 2, 3])]"]
    select_unassigned_variable_undecided [of "[(''A'', [1::int]), (''B'', [])]"]
  by (simp add: select_unassigned_variable_def assignment_done_def len_of_def)

section \<open>Adding a variable twice\<close>

text \<open>
  Claim C5, as stated, fails: \<open>add_variable\<close> has no check. Adding \<open>A\<close> a second time
  returns a network in which \<open>A\<close> is listed twice, the second domain has replaced the
  first and the constraint table of \<open>A\<close> is empty, where the contract fails with
  \<open>DuplicateVariable\<close>.
\<close>

theorem add_variable_duplicate_counterexample:
  "addVariable ''A'' [2] (add_variable ''A'' [1] (add_variable ''B'' [1] CSP_init))
     = (Inl DuplicateVariable :: contract_error + (string, int) csp)
   \<and> add_variable ''A'' [2] (add_variable ''A'' [1] (add_variable ''B'' [1] CSP_init))
     = \<lparr>variables = [''B'', ''A'', ''A''],
        domains = [(''B'', [1]), (''A'', [2::int])],
        constraints = [(''B'', []), (''A'', [])],
        backtracking_call_counter = 0, backtracking_fail_counter = 0\<rparr>"
  by (simp add: addVariable_def add_variable_def CSP_init_def)

text \<open>
  Claim C5, amended. \<open>add_variable\<close> never fails: for every name, present or not, it
  appends the name to the list of variables, stores the given domain under the name and
  an empty constraint table for it, and leaves the other entries and the counters as
  they were. For a name that is not yet present this is what the contract asks.
\<close>

theorem add_variable_stores:
  "variables (add_variable name domain csp) = variables csp @ [name]
   \<and> map_of (domains (add_variable name domain csp)) = (map_of (domains csp))(name \<mapsto> domain)
   \<and> map_of (constraints (add_variable name domain csp))
       = (map_of (constraints csp))(name \<mapsto> [])
   \<and> backtracking_call_counter (add_variable name domain csp) = backtracking_call_counter csp
   \<and> backtracking_fail_counter (add_variable name domain csp) = backtracking_fail_counter csp
   \<and> (name \<notin> set (variables csp) \<longrightarrow>
        addVariable name domain csp = Inr (add_variable name domain csp))"
  by (simp add: add_variable_def addVariable_def update_conv')

theorem add_variable_stores_witness:
  "variables (add_variable ''A'' [2::int] (add_variable ''A'' [1] CSP_init)) = [''A'', ''A'']
   \<and> map_of (domains (add_variable ''A'' [2::int] (add_variable ''A'' [1] CSP_init))) ''A''
       = Some [2]
   \<and> addVariable ''B'' [1::int] (add_variable ''A'' [1] CSP_init)
       = Inr (add_variable ''B'' [1] (add_variable ''A'' [1] CSP_init))"
  using add_variable_stores [of "''A''" "[2::int]" "add_variable ''A'' [1] CSP_init"]
    add_variable_stores [of "''B''" "[1::int]" "add_variable ''A'' [1] CSP_init"]
    add_variable_stores [of "''A''" "[1::int]" CSP_init]
  by (simp add: CSP_init_def)

section \<open>The unsatisfiable network\<close>

text \<open>
  Claim C2 at the state \<open>{A: [1], B: []}\<close>, which the first propagation leaves of the
  unsatisfiable network: \<open>assignment_done\<close> only looks for a domain with more than one
  value, so \<open>backtrack\<close> returns the state with the empty domain of \<open>B\<close> as its
  solution.
\<close>

theorem backtrack_returns_wiped_out:
  "backtrack unsat_network [(''A'', [1]), (''B'', [])]
     = Inr (unsat_network\<lparr>backtracking_call_counter := 1\<rparr>,
            Solution [(''A'', [1]), (''B'', [])])"
  by (simp add: backtrack.simps assignment_done_def len_of_def unsat_network_def)

text \<open>
  Claim C3 at the unsatisfiable network: the first propagation over all arcs returns
  \<open>False\<close>, and \<open>backtracking_search\<close> calls \<open>backtrack\<close> on the state it left.
\<close>

theorem backtracking_search_enters_backtrack:
  "inference unsat_network (domains unsat_network) (get_all_arcs unsat_network)
     = Inr ([(''A'', [1]), (''B'', [])], False)
   \<and> backtracking_search unsat_network = backtrack unsat_network [(''A'', [1]), (''B'', [])]"
  by (simp add: backtracking_search_def inference.simps revise_def constraint_of_def
      get_all_arcs_def list_remove_def unsat_network_def)

text \<open>
  Claim C4 at the unsatisfiable network: \<open>backtracking_search\<close> returns an assignment,
  not \<open>False\<close>, after one call of \<open>backtrack\<close> and with the failure counter at zero.
\<close>

theorem backtracking_search_unsat:
  "backtracking_search unsat_network
     = Inr (\<lparr>variables = [''A'', ''B''],
             domains = [(''A'', [1]), (''B'', [1])],
             constraints = [(''A'', [(''B'', [])]), (''B'', [(''A'', [])])],
             backtracking_call_counter = 1, backtracking_fail_counter = 0\<rparr>,
            Solution [(''A'', [1]), (''B'', [])])"
  by (simp add: backtracking_search_def inference.simps revise_def constraint_of_def
      get_all_arcs_def list_remove_def backtrack.simps assignment_done_def len_of_def
      unsat_network_def)

section \<open>Arc consistency as an invariant of propagation\<close>

text \<open>
  The arc \<open>(i, j)\<close> is \<^emph>\<open>tight\<close> when both directions are registered and every pair allowed
  for \<open>i \<rightarrow> j\<close> is allowed, mirrored, for \<open>j \<rightarrow> i\<close>. Both arcs of a constraint added in
  both directions with one symmetric predicate (as \<open>add_all_different_constraint\<close> does)
  are tight; when a further filter narrows one direction only, that direction stays tight.
\<close>

definition tight :: "('n, 'v) csp \<Rightarrow> 'n \<Rightarrow> 'n \<Rightarrow> bool" where
  "tight csp i j =
     (case constraint_of csp i j of
        None \<Rightarrow> False
      | Some pairs \<Rightarrow>
          (case constraint_of csp j i of
             None \<Rightarrow> False
           | Some mirrored \<Rightarrow> list_all (\<lambda>(a, b). (b, a) \<in> set mirrored) pairs))"

text \<open>An arc is stable in a state when \<open>revise\<close> on it returns normally and removes
  nothing.\<close>

definition stable :: "('n, 'v) csp \<Rightarrow> ('n, 'v list) dict \<Rightarrow> 'n \<Rightarrow> 'n \<Rightarrow> bool" where
  "stable csp assignment i j = (revise csp assignment i j = Inr (assignment, False))"

text \<open>A state has shrunk from another: the same keys in the same order, and every
  domain holds only values it held before.\<close>

definition shrunk :: "('n, 'v list) dict \<Rightarrow> ('n, 'v list) dict \<Rightarrow> bool" where
  "shrunk a' a =
     (map fst a' = map fst a \<and>
      (\<forall>k d. map_of a k = Some d \<longrightarrow> (\<exists>d'. map_of a' k = Some d' \<and> set d' \<subseteq> set d)))"

lemma tightD:
  assumes "tight csp i j"
  obtains pairs mirrored where "constraint_of csp i j = Some pairs" "constraint_of csp j i = Some mirrored"
    "\<And>x y. (x, y) \<in> set pairs \<Longrightarrow> (y, x) \<in> set mirrored"
proof -
  from assms obtain p m where c: "constraint_of csp i j = Some p" "constraint_of csp j i = Some m"
    and m: "\<forall>e\<in>set p. case e of (a, b) \<Rightarrow> (b, a) \<in> set m"
    by (auto simp: tight_def list_all_iff split: option.splits)
  from m have "(y, x) \<in> set m" if "(x, y) \<in> set p" for x y using that by auto
  with c show thesis by (rule that)
qed

lemma shrunk_refl: "shrunk a a"
  by (simp add: shrunk_def)

lemma shrunk_trans: "shrunk a'' a' \<Longrightarrow> shrunk a' a \<Longrightarrow> shrunk a'' a"
  unfolding shrunk_def by (metis subset_trans)

lemma shrunk_update:
  assumes "map_of a k = Some d" "set d' \<subseteq> set d"
  shows "shrunk (AList.update k d' a) a"
proof -
  from assms(1) have "k \<in> set (map fst a)" by (rule key_of_lookup)
  then have "map fst (AList.update k d' a) = map fst a" by (simp add: update_keys)
  with assms show ?thesis by (auto simp: shrunk_def update_conv')
qed

lemma remove_values_subset:
  "remove_values incs xs = Inr xs' \<Longrightarrow> set xs' \<subseteq> set xs"
proof (induction incs arbitrary: xs)
  case Nil
  then show ?case by simp
next
  case (Cons x incs)
  from Cons.prems obtain ys where ys: "list_remove x xs = Inr ys" "remove_values incs ys = Inr xs'"
    by (auto split: sum.splits)
  from ys(1) have "set ys \<subseteq> set xs"
    using set_remove1_subset [of x xs] by (auto simp: list_remove_def split: if_splits)
  with Cons.IH [OF ys(2)] show ?case by blast
qed

lemma revise_update:
  assumes "revise csp a i j = Inr (a', r)"
  obtains di di' where "map_of a i = Some di" "a' = AList.update i di' a" "set di' \<subseteq> set di"
  using assms
  by (auto simp: revise_def split: option.splits sum.splits dest: remove_values_subset)

lemma revise_shrunk: "revise csp a i j = Inr (a', r) \<Longrightarrow> shrunk a' a"
  by (erule revise_update) (simp add: shrunk_update)

text \<open>What a successful \<open>revise\<close> did on a registered arc.\<close>

lemma revise_cases:
  assumes "revise csp a i j = Inr (a', r)" and "constraint_of csp i j = Some pairs"
  obtains (empty) "map_of a i = Some []" "a' = a" "\<not> r"
  | (scanned) di dj where "map_of a i = Some di" "map_of a j = Some dj"
      "a' = AList.update i (filter (supported pairs dj) di) a"
      "r \<longleftrightarrow> \<not> list_all (supported pairs dj) di"
proof -
  from assms(1) obtain di where di: "map_of a i = Some di"
    by (auto simp: revise_def split: option.splits)
  show ?thesis
  proof (cases di)
    case Nil
    with assms(1) di have "a' = a" "\<not> r"
      by (auto simp: revise_def update_triv)
    with di Nil show ?thesis by (auto intro: empty)
  next
    case (Cons x xs)
    with assms(1) di obtain dj where dj: "map_of a j = Some dj"
      by (auto simp: revise_def split: option.splits)
    from revise_result [OF di dj assms(2)] assms(1) di dj show ?thesis
      by (auto intro: scanned)
  qed
qed

lemma stable_iff:
  assumes "constraint_of csp i j = Some pairs"
  shows "stable csp a i j \<longleftrightarrow>
    (map_of a i = Some [] \<or>
     (\<exists>di dj. map_of a i = Some di \<and> map_of a j = Some dj \<and> list_all (supported pairs dj) di))"
proof
  assume "stable csp a i j"
  then have "revise csp a i j = Inr (a, False)" by (simp add: stable_def)
  from this assms show "map_of a i = Some [] \<or>
     (\<exists>di dj. map_of a i = Some di \<and> map_of a j = Some dj \<and> list_all (supported pairs dj) di)"
    by (cases rule: revise_cases) auto
next
  assume r: "map_of a i = Some [] \<or>
     (\<exists>di dj. map_of a i = Some di \<and> map_of a j = Some dj \<and> list_all (supported pairs dj) di)"
  show "stable csp a i j"
  proof (cases "map_of a i = Some []")
    case True
    then show ?thesis by (simp add: stable_def revise_def update_triv)
  next
    case False
    with r obtain di dj where d: "map_of a i = Some di" "map_of a j = Some dj"
      and all: "list_all (supported pairs dj) di" by auto
    from all have "filter (supported pairs dj) di = di" by (simp add: list_all_iff)
    with revise_result [OF d assms] all d(1) show ?thesis
      by (simp add: stable_def update_triv)
  qed
qed

lemma supported_iff: "supported pairs dj x \<longleftrightarrow> (\<exists>y\<in>set dj. (x, y) \<in> set pairs)"
  by (simp add: supported_def list_ex_iff)

text \<open>Revising the arc \<open>(xi, xj)\<close> keeps a tight arc stable, unless it is an arc
  \<open>(k, xi)\<close> with \<open>k \<noteq> xj\<close>: those are the arcs the loop puts back.\<close>

lemma revise_keeps_stable:
  assumes rv: "revise csp a xi xj = Inr (a', r)"
    and t: "tight csp i j"
    and before: "(i, j) = (xi, xj) \<or> stable csp a i j"
    and notback: "j = xi \<longrightarrow> i = xj"
  shows "stable csp a' i j"
proof -
  from t obtain pairs mirrored where
    c: "constraint_of csp i j = Some pairs" and c': "constraint_of csp j i = Some mirrored"
    and m: "\<forall>x y. (x, y) \<in> set pairs \<longrightarrow> (y, x) \<in> set mirrored"
    by (rule tightD) blast
  from rv obtain dxi dxi' where
    u: "map_of a xi = Some dxi" "a' = AList.update xi dxi' a" "set dxi' \<subseteq> set dxi"
    by (rule revise_update)
  have other: "map_of a' k = map_of a k" if "k \<noteq> xi" for k
    using that u(2) by (simp add: update_conv')
  have xi': "map_of a' xi = Some dxi'" using u(2) by (simp add: update_conv')
  show ?thesis
  proof (cases "(i, j) = (xi, xj)")
    case True
    then have ij: "i = xi" "j = xj" by simp_all
    note c0 = c [unfolded ij] and c0' = c' [unfolded ij]
    from rv c0 have "stable csp a' xi xj"
    proof (cases rule: revise_cases)
      case empty
      then show ?thesis by (simp add: stable_iff [OF c0])
    next
      case (scanned di dj)
      let ?di' = "filter (supported pairs dj) di"
      have i': "map_of a' xi = Some ?di'" using scanned(3) by (simp add: update_conv')
      show ?thesis
      proof (cases "xj = xi")
        case False
        with scanned(2,3) have "map_of a' xj = Some dj" by (simp add: update_conv')
        with i' show ?thesis by (auto simp: stable_iff [OF c0] list_all_iff)
      next
        case True
        with scanned(1,2) have "dj = di" by simp
        have "supported pairs ?di' x" if "x \<in> set ?di'" for x
        proof -
          from that have "x \<in> set di" "supported pairs di x" by (simp_all add: \<open>dj = di\<close>)
          then obtain y where y: "y \<in> set di" "(x, y) \<in> set pairs"
            by (auto simp: supported_iff)
          from m [rule_format, OF y(2)] c0 c0' True have "(y, x) \<in> set pairs" by simp
          with \<open>x \<in> set di\<close> have "supported pairs di y" by (auto simp: supported_iff)
          with y show ?thesis by (auto simp: supported_iff \<open>dj = di\<close>)
        qed
        then have "list_all (supported pairs ?di') ?di'" by (simp add: list_all_iff)
        moreover from i' True have "map_of a' xj = Some ?di'" by simp
        ultimately show ?thesis unfolding stable_iff [OF c0] using i' by blast
      qed
    qed
    then show ?thesis by (simp add: ij)
  next
    case False
    with before have st: "stable csp a i j" by blast
    from st [unfolded stable_iff [OF c]] show ?thesis
    proof
      assume e: "map_of a i = Some []"
      have "map_of a' i = Some []"
      proof (cases "i = xi")
        case True
        with e u xi' show ?thesis by simp
      next
        case False
        with e other show ?thesis by simp
      qed
      then show ?thesis by (simp add: stable_iff [OF c])
    next
      assume "\<exists>di dj. map_of a i = Some di \<and> map_of a j = Some dj \<and> list_all (supported pairs dj) di"
      then obtain di dj where d: "map_of a i = Some di" "map_of a j = Some dj"
        and all: "\<forall>x\<in>set di. supported pairs dj x" by (auto simp: list_all_iff)
      obtain di' where di': "map_of a' i = Some di'" "set di' \<subseteq> set di"
      proof (cases "i = xi")
        case True
        with d u xi' show ?thesis by (auto intro: that)
      next
        case False
        with d other show ?thesis by (auto intro: that)
      qed
      show ?thesis
      proof (cases "j = xi")
        case False
        with d other have "map_of a' j = Some dj" by simp
        with di' all show ?thesis by (auto simp: stable_iff [OF c] list_all_iff)
      next
        case True
        with notback have ixj: "i = xj" by simp
        from True ixj \<open>(i, j) \<noteq> (xi, xj)\<close> have ne: "xi \<noteq> xj" by auto
        from c' True ixj have cx: "constraint_of csp xi xj = Some mirrored" by simp
        from rv cx show ?thesis
        proof (cases rule: revise_cases)
          case empty
          with st show ?thesis by simp
        next
          case (scanned exi exj)
          from scanned(1,2) d True ixj have e: "exi = dj" "exj = di" by simp_all
          let ?dj' = "filter (supported mirrored di) dj"
          from scanned(3) e True have j': "map_of a' j = Some ?dj'" by (simp add: update_conv')
          from scanned(3) d ne ixj have i': "map_of a' i = Some di" by (simp add: update_conv')
          have "supported pairs ?dj' x" if "x \<in> set di" for x
          proof -
            from all that obtain y where y: "y \<in> set dj" "(x, y) \<in> set pairs"
              by (auto simp: supported_iff)
            from m [rule_format, OF y(2)] that have "supported mirrored di y" by (auto simp: supported_iff)
            with y show ?thesis by (auto simp: supported_iff)
          qed
          with i' j' show ?thesis by (auto simp: stable_iff [OF c] list_all_iff)
        qed
      qed
    qed
  qed
qed

text \<open>Induction over the rounds of a run of \<open>inference\<close> that returned.\<close>

lemma inference_rounds [consumes 1, case_names empty wipeout requeue skip]:
  assumes run: "inference csp a q = Inr (a', r)"
    and empty: "\<And>a. P a [] a True"
    and wipeout: "\<And>a q xi xj a1.
      revise csp a xi xj = Inr (a1, True) \<Longrightarrow> map_of a1 xi = Some [] \<Longrightarrow>
      P a (q @ [(xi, xj)]) a1 False"
    and requeue: "\<And>a q xi xj a1 d ci a' r.
      revise csp a xi xj = Inr (a1, True) \<Longrightarrow> map_of a1 xi = Some d \<Longrightarrow> d \<noteq> [] \<Longrightarrow>
      map_of (constraints csp) xi = Some ci \<Longrightarrow>
      inference csp a1 (q @ map (\<lambda>k. (k, xi)) (filter (\<lambda>k. k \<noteq> xj) (map fst ci)))
        = Inr (a', r) \<Longrightarrow>
      P a1 (q @ map (\<lambda>k. (k, xi)) (filter (\<lambda>k. k \<noteq> xj) (map fst ci))) a' r \<Longrightarrow>
      P a (q @ [(xi, xj)]) a' r"
    and skip: "\<And>a q xi xj a' r.
      revise csp a xi xj = Inr (a, False) \<Longrightarrow> inference csp a q = Inr (a', r) \<Longrightarrow>
      P a q a' r \<Longrightarrow> P a (q @ [(xi, xj)]) a' r"
  shows "P a q a' r"
proof -
  have "inference c a q = Inr (a', r) \<Longrightarrow> c = csp \<Longrightarrow> P a q a' r" for c
  proof (induction c a q rule: inference.induct)
  case (1 c a q)
  from "1.prems"(2) have ceq: "c = csp" .
  note prem = "1.prems"(1) [unfolded ceq]
  note IH1 = "1.IH"(1) [unfolded ceq] and IH2 = "1.IH"(2) [unfolded ceq]
  show ?case
  proof (cases "q = []")
    case True
    with prem empty show ?thesis by (simp add: inference.simps)
  next
    case False
    then obtain q0 xi xj where q: "q = q0 @ [(xi, xj)]"
      by (metis append_butlast_last_id surj_pair)
    then have l: "last q = (xi, xj)" and b: "butlast q = q0" by simp_all
    from prem False l obtain a1 revised where
      rv: "revise csp a xi xj = Inr (a1, revised)"
      by (auto simp: inference.simps [of csp a q] split: sum.splits)
    show ?thesis
    proof (cases revised)
      case True
      from prem False l rv True obtain d where d: "map_of a1 xi = Some d"
        by (auto simp: inference.simps [of csp a q] split: option.splits)
      show ?thesis
      proof (cases "d = []")
        case True
        with prem False l rv \<open>revised\<close> d have "a' = a1" "\<not> r"
          by (auto simp: inference.simps [of csp a q])
        moreover from rv \<open>revised\<close> have "revise csp a xi xj = Inr (a1, True)" by simp
        from wipeout [OF this, of q0] d True have "P a (q0 @ [(xi, xj)]) a1 False" by simp
        ultimately show ?thesis using q by simp
      next
        case nonempty: False
        from prem False l rv \<open>revised\<close> d nonempty obtain arcs where
          arcs: "get_all_neighboring_arcs csp xi = Inr arcs"
          and rec: "inference csp a1
             (butlast q @ map (\<lambda>(xk, y). (xk, xi)) (filter (\<lambda>(xk, y). xk \<noteq> xj) arcs))
             = Inr (a', r)"
          by (auto simp: inference.simps [of csp a q] split: sum.splits)
        from arcs obtain ci where ci: "map_of (constraints csp) xi = Some ci"
          and arcs_eq: "arcs = map (\<lambda>(k, pairs). (k, xi)) ci"
          by (auto simp: get_all_neighboring_arcs_def split: option.splits)
        from nonempty have len: "length d \<noteq> 0" by simp
        note IH = IH1 [OF False l [symmetric] rv refl \<open>revised\<close> d len arcs rec refl]
        from rec IH have
          "inference csp a1 (q0 @ map (\<lambda>k. (k, xi)) (filter (\<lambda>k. k \<noteq> xj) (map fst ci)))
             = Inr (a', r)"
          "P a1 (q0 @ map (\<lambda>k. (k, xi)) (filter (\<lambda>k. k \<noteq> xj) (map fst ci))) a' r"
          by (simp_all add: arcs_eq requeue_arcs b)
        moreover from rv \<open>revised\<close> have "revise csp a xi xj = Inr (a1, True)" by simp
        ultimately have "P a (q0 @ [(xi, xj)]) a' r"
          using d nonempty ci by (rule requeue [rotated 4])
        with q show ?thesis by simp
      qed
    next
      case not_revised: False
      with rv have "a1 = a" by (simp add: revise_unchanged)
      from prem False l rv not_revised have rec: "inference csp a1 (butlast q) = Inr (a', r)"
        by (auto simp: inference.simps [of csp a q])
      note IH = IH2 [OF False l [symmetric] rv refl not_revised rec refl]
      from rv not_revised \<open>a1 = a\<close> have "revise csp a xi xj = Inr (a, False)" by simp
      moreover from rec IH \<open>a1 = a\<close> b have "inference csp a q0 = Inr (a', r)" "P a q0 a' r"
        by simp_all
      ultimately have "P a (q0 @ [(xi, xj)]) a' r" by (rule skip)
      with q show ?thesis by simp
    qed
  qed
qed
  with run show ?thesis by simp
qed

lemma inference_shrunk: "inference csp a q = Inr (a', r) \<Longrightarrow> shrunk a' a"
proof (induction rule: inference_rounds)
  case (empty a)
  show ?case by (rule shrunk_refl)
next
  case (wipeout a q xi xj a1)
  then show ?case by (simp add: revise_shrunk)
next
  case (requeue a q xi xj a1 d ci a' r)
  from requeue(6) revise_shrunk [OF requeue(1)] show ?case by (rule shrunk_trans)
next
  case (skip a q xi xj a' r)
  then show ?case by simp
qed

lemma inference_failed: "inference csp a q = Inr (a', False) \<Longrightarrow> \<exists>k. map_of a' k = Some []"
  by (induction a q a' "False" rule: inference_rounds) auto

lemma inference_stable:
  assumes run: "inference csp a q = Inr (a', r)" and ok: "r"
    and R: "\<forall>(i, j)\<in>R. tight csp i j"
    and inv: "\<forall>(i, j)\<in>R. (i, j) \<in> set q \<or> stable csp a i j"
  shows "\<forall>(i, j)\<in>R. stable csp a' i j"
  using run ok inv
proof (induction rule: inference_rounds)
  case (empty a)
  then show ?case by simp
next
  case (wipeout a q xi xj a1)
  then show ?case by simp
next
  case (requeue a q xi xj a1 d ci a' r)
  let ?q = "q @ map (\<lambda>k. (k, xi)) (filter (\<lambda>k. k \<noteq> xj) (map fst ci))"
  have "(i, j) \<in> set ?q \<or> stable csp a1 i j" if ij: "(i, j) \<in> R" for i j
  proof (cases "(i, j) \<in> set q \<or> (j = xi \<and> i \<noteq> xj)")
    case True
    then show ?thesis
    proof
      assume "(i, j) \<in> set q"
      then show ?thesis by simp
    next
      assume pointing: "j = xi \<and> i \<noteq> xj"
      from R ij have "tight csp i j" by auto
      then obtain mirrored where "constraint_of csp j i = Some mirrored" by (rule tightD)
      with pointing requeue(4) have "map_of ci i = Some mirrored" by (simp add: constraint_of_def)
      then have "i \<in> set (map fst ci)" by (rule key_of_lookup)
      with pointing show ?thesis by auto
    qed
  next
    case False
    from R ij have t: "tight csp i j" by auto
    from requeue.prems(2) ij False have "(i, j) = (xi, xj) \<or> stable csp a i j" by auto
    from revise_keeps_stable [OF requeue(1) t this] False show ?thesis by blast
  qed
  with requeue.IH requeue.prems(1) show ?case by blast
next
  case (skip a q xi xj a' r)
  have "(i, j) \<in> set q \<or> stable csp a i j" if ij: "(i, j) \<in> R" for i j
  proof (cases "(i, j) = (xi, xj)")
    case True
    with skip(1) show ?thesis by (simp add: stable_def)
  next
    case False
    with skip.prems(2) ij show ?thesis by auto
  qed
  with skip.IH skip.prems(1) show ?case by blast
qed

text \<open>A state is propagated when every tight arc is stable in it.\<close>

definition propagated :: "('n, 'v) csp \<Rightarrow> ('n, 'v list) dict \<Rightarrow> bool" where
  "propagated csp a = (\<forall>i j. tight csp i j \<longrightarrow> stable csp a i j)"

lemma inference_all_stable:
  "\<forall>(i, j)\<in>set q. stable csp a i j \<Longrightarrow> inference csp a q = Inr (a, True)"
proof (induction q rule: rev_induct)
  case Nil
  show ?case by (simp add: inference.simps)
next
  case (snoc e q)
  obtain i j where e: "e = (i, j)" by (cases e)
  with snoc.prems have "revise csp a i j = Inr (a, False)" by (simp add: stable_def)
  with snoc e show ?case by (simp add: inference.simps [of csp a "q @ [(i, j)]"])
qed

subsection \<open>Running the propagation twice\<close>

definition asym_network :: "(string, int) csp" where
  "asym_network =
     \<lparr>variables = [''X'', ''Y''],
      domains = [(''X'', [1, 2]), (''Y'', [1, 2])],
      constraints = [(''X'', [(''Y'', [(1, 1), (2, 2)])]), (''Y'', [(''X'', [(1, 2), (2, 1)])])],
      backtracking_call_counter = 0, backtracking_fail_counter = 0\<rparr>"

lemma asym_network_built:
  "(case add_constraint_one_way ''X'' ''Y'' (\<lambda>x y. x = y)
           (add_variable ''Y'' [1, 2] (add_variable ''X'' [1, 2] CSP_init)) of
      Inl e \<Rightarrow> Inl e
    | Inr csp \<Rightarrow> add_constraint_one_way ''Y'' ''X'' (\<lambda>y x. y \<noteq> x) csp) = Inr asym_network"
  by (simp add: asym_network_def get_all_possible_pairs_def
      add_constraint_one_way_def add_variable_def CSP_init_def)

definition abc_network :: "(string, int) csp" where
  "abc_network =
     \<lparr>variables = [''A'', ''B'', ''C''],
      domains = [(''A'', [1]), (''B'', [1]), (''C'', [1, 2])],
      constraints = [(''A'', [(''B'', [])]), (''B'', [(''A'', []), (''C'', [(1, 2)])]),
                     (''C'', [(''B'', [(2, 1)])])],
      backtracking_call_counter = 0, backtracking_fail_counter = 0\<rparr>"

lemma abc_network_built:
  "(case add_all_different_constraint [''A'', ''B'']
           (add_variable ''C'' [1, 2] (add_variable ''B'' [1] (add_variable ''A'' [1] CSP_init))) of
      Inl e \<Rightarrow> Inl e
    | Inr csp \<Rightarrow> add_all_different_constraint [''B'', ''C''] csp) = Inr abc_network"
  by (simp add: abc_network_def add_all_different_constraint_def get_all_possible_pairs_def
      add_constraint_one_way_def add_variable_def CSP_init_def)

lemmas run_simps = inference.simps revise_def constraint_of_def get_all_arcs_def list_remove_def
  backtrack.simps backtrack_values.simps assignment_done_def select_unassigned_variable_def
  len_of_def get_all_neighboring_arcs_def backtracking_search_def

text \<open>
  Claim C9, as stated, fails. On the all-different network over \<open>A\<close>, \<open>B\<close>, \<open>C\<close> the
  first run stops at the wipe-out of \<open>A\<close> with the arc \<open>(C, B)\<close> still in the worklist,
  and a second run with the same arcs goes on to shrink \<open>C\<close>. On the network whose two
  directions disagree (\<open>X \<rightarrow> Y\<close> equal, \<open>Y \<rightarrow> X\<close> different) the first run succeeds, and the
  second run empties \<open>X\<close>.
\<close>

theorem inference_not_idempotent_counterexample:
  "inference abc_network [(''A'', [1]), (''B'', [1]), (''C'', [1, 2])]
       [(''C'', ''B''), (''A'', ''B'')]
     = Inr ([(''A'', []), (''B'', [1]), (''C'', [1, 2])], False)
   \<and> inference abc_network [(''A'', []), (''B'', [1]), (''C'', [1, 2])]
       [(''C'', ''B''), (''A'', ''B'')]
     = Inr ([(''A'', []), (''B'', [1]), (''C'', [2])], True)
   \<and> inference asym_network [(''X'', [1]), (''Y'', [1, 2])] [(''Y'', ''X''), (''X'', ''Y'')]
     = Inr ([(''X'', [1]), (''Y'', [2])], True)
   \<and> inference asym_network [(''X'', [1]), (''Y'', [2])] [(''Y'', ''X''), (''X'', ''Y'')]
     = Inr ([(''X'', []), (''Y'', [2])], False)"
  by (simp add: run_simps abc_network_def asym_network_def)

text \<open>
  Claim C9, amended. If every arc of the worklist is tight and a run of \<open>inference\<close> on a
  state with that worklist returns success, then a second run on the resulting state with
  the same arcs returns success and leaves the state as it is.
\<close>

theorem inference_idempotent:
  assumes "list_all (\<lambda>(i, j). tight csp i j) queue"
    and "inference csp assignment queue = Inr (assignment', True)"
  shows "inference csp assignment' queue = Inr (assignment', True)"
proof -
  from assms(1) have t: "\<forall>(i, j)\<in>set queue. tight csp i j" by (simp add: list_all_iff)
  have "\<forall>(i, j)\<in>set queue. (i, j) \<in> set queue \<or> stable csp assignment i j" by auto
  from inference_stable [OF assms(2) _ t this]
  have "\<forall>(i, j)\<in>set queue. stable csp assignment' i j" by simp
  then show ?thesis by (rule inference_all_stable)
qed

theorem inference_idempotent_witness:
  "list_all (\<lambda>(i, j). tight xyz_network i j) [(''Y'', ''Z''), (''Z'', ''X'')]
   \<and> inference xyz_network [(''X'', [1]), (''Y'', [1, 2, 3]), (''Z'', [1, 2, 3])]
        [(''Y'', ''Z''), (''Z'', ''X'')]
     = Inr ([(''X'', [1]), (''Y'', [1, 2, 3]), (''Z'', [2, 3])], True)
   \<and> inference xyz_network [(''X'', [1]), (''Y'', [1, 2, 3]), (''Z'', [2, 3])]
        [(''Y'', ''Z''), (''Z'', ''X'')]
     = Inr ([(''X'', [1]), (''Y'', [1, 2, 3]), (''Z'', [2, 3])], True)"
proof -
  have t: "list_all (\<lambda>(i, j). tight xyz_network i j) [(''Y'', ''Z''), (''Z'', ''X'')]"
    by (simp add: tight_def constraint_of_def xyz_network_def)
  have r: "inference xyz_network [(''X'', [1]), (''Y'', [1, 2, 3]), (''Z'', [1, 2, 3])]
        [(''Y'', ''Z''), (''Z'', ''X'')]
     = Inr ([(''X'', [1]), (''Y'', [1, 2, 3]), (''Z'', [2, 3])], True)"
    by (simp add: run_simps xyz_network_def)
  from t r inference_idempotent [OF t r] show ?thesis by blast
qed

subsection \<open>What a returned assignment satisfies\<close>

lemma constraint_of_cong:
  "constraints c' = constraints c \<Longrightarrow> constraint_of c' = constraint_of c"
  by (auto simp: constraint_of_def fun_eq_iff)

lemma propagated_cong:
  assumes "constraints c' = constraints c"
  shows "propagated c' = propagated c"
  unfolding propagated_def [abs_def] tight_def stable_def revise_def
    constraint_of_cong [OF assms] ..

lemma backtrack_constraints:
  "backtrack csp a = Inr (csp', res) \<Longrightarrow> constraints csp' = constraints csp"
  "backtrack_values csp a v ds = Inr (csp', res) \<Longrightarrow> constraints csp' = constraints csp"
proof (induction csp a and csp a v ds arbitrary: csp' res and csp' res
    rule: backtrack_backtrack_values.induct)
  case (1 csp a)
  show ?case
  proof (cases "assignment_done a")
    case True
    with "1.prems" show ?thesis by (auto simp: backtrack.simps [of csp a])
  next
    case False
    with "1.prems" obtain v ds where s: "select_unassigned_variable a = Some v"
      "map_of a v = Some ds"
      and r: "backtrack_values (csp\<lparr>backtracking_call_counter := backtracking_call_counter csp + 1\<rparr>)
        a v ds = Inr (csp', res)"
      by (auto simp: backtrack.simps [of csp a] split: option.splits)
    from "1.IH" [OF False s r] show ?thesis by simp
  qed
next
  case (2 csp a v)
  then show ?case by (auto simp: backtrack_values.simps)
next
  case (3 csp a v x rest)
  from "3.prems" obtain arcs new ok where
    arcs: "get_all_neighboring_arcs csp v = Inr arcs"
    and inf: "inference csp (AList.update v [x] a) arcs = Inr (new, ok)"
    by (auto simp: backtrack_values.simps(2) [of csp a v x rest] split: sum.splits)
  show ?case
  proof (cases ok)
    case False
    with "3.prems" arcs inf have "backtrack_values csp a v rest = Inr (csp', res)"
      by (simp add: backtrack_values.simps(2) [of csp a v x rest])
    from "3.IH"(3) [OF arcs inf refl False this] show ?thesis .
  next
    case True
    with "3.prems" arcs inf obtain csp1 res1 where
      b: "backtrack csp new = Inr (csp1, res1)"
      by (auto simp: backtrack_values.simps(2) [of csp a v x rest] split: sum.splits)
    note c1 = "3.IH"(1) [OF arcs inf refl True b]
    show ?thesis
    proof (cases "truthy res1")
      case True
      with "3.prems" arcs inf \<open>ok\<close> b have "csp' = csp1"
        by (simp add: backtrack_values.simps(2) [of csp a v x rest])
      with c1 show ?thesis by simp
    next
      case False
      with "3.prems" arcs inf \<open>ok\<close> b have "backtrack_values csp1 a v rest = Inr (csp', res)"
        by (simp add: backtrack_values.simps(2) [of csp a v x rest])
      from "3.IH"(2) [OF arcs inf refl \<open>ok\<close> b refl False this] c1 show ?thesis by simp
    qed
  qed
qed

lemma assign_keeps_stable:
  assumes p: "propagated csp a" and v: "map_of a v = Some d0" and x: "x \<in> set d0"
    and arcs: "get_all_neighboring_arcs csp v = Inr arcs"
    and t: "tight csp i j"
  shows "(i, j) \<in> set arcs \<or> stable csp (AList.update v [x] a) i j"
proof (cases "j = v")
  case True
  from t obtain mirrored where "constraint_of csp j i = Some mirrored" by (rule tightD)
  with True arcs obtain cv where "map_of (constraints csp) v = Some cv" "map_of cv i = Some mirrored"
    "arcs = map (\<lambda>(k, pairs). (k, v)) cv"
    by (auto simp: constraint_of_def get_all_neighboring_arcs_def split: option.splits)
  with True map_of_SomeD [OF this(2)] show ?thesis by force
next
  case False
  from t obtain pairs where c: "constraint_of csp i j = Some pairs" by (rule tightD)
  let ?a = "AList.update v [x] a"
  have j: "map_of ?a j = map_of a j" using False by (simp add: update_conv')
  from p t have "stable csp a i j" by (simp add: propagated_def)
  from this [unfolded stable_iff [OF c]] have "stable csp ?a i j"
  proof
    assume e: "map_of a i = Some []"
    with v x have "i \<noteq> v" by auto
    with e have "map_of ?a i = Some []" by (simp add: update_conv')
    then show ?thesis unfolding stable_iff [OF c] by blast
  next
    assume "\<exists>di dj. map_of a i = Some di \<and> map_of a j = Some dj \<and> list_all (supported pairs dj) di"
    then obtain di dj where d: "map_of a i = Some di" "map_of a j = Some dj"
      and all: "\<forall>x\<in>set di. supported pairs dj x" by (auto simp: list_all_iff)
    show ?thesis
    proof (cases "i = v")
      case True
      with d v x all have "list_all (supported pairs dj) [x]" by simp
      moreover from True have "map_of ?a i = Some [x]" by (simp add: update_conv')
      moreover from d j have "map_of ?a j = Some dj" by simp
      ultimately show ?thesis unfolding stable_iff [OF c] by blast
    next
      case False
      with d have "map_of ?a i = Some di" by (simp add: update_conv')
      moreover from d j have "map_of ?a j = Some dj" by simp
      moreover from all have "list_all (supported pairs dj) di" by (simp add: list_all_iff)
      ultimately show ?thesis unfolding stable_iff [OF c] by blast
    qed
  qed
  then show ?thesis ..
qed

lemma backtrack_sound:
  "backtrack csp a = Inr (csp', Solution s) \<Longrightarrow>
     assignment_done s \<and> shrunk s a \<and> (propagated csp a \<longrightarrow> propagated csp s)"
  "backtrack_values csp a v ds = Inr (csp', Solution s) \<Longrightarrow>
     map_of a v = Some d0 \<Longrightarrow> set ds \<subseteq> set d0 \<Longrightarrow>
     assignment_done s \<and> shrunk s a \<and> (propagated csp a \<longrightarrow> propagated csp s)"
proof (induction csp a and csp a v ds arbitrary: csp' s and csp' s d0
    rule: backtrack_backtrack_values.induct)
  case (1 csp a)
  show ?case
  proof (cases "assignment_done a")
    case True
    with "1.prems" show ?thesis by (auto simp: backtrack.simps [of csp a] shrunk_refl)
  next
    case False
    let ?csp = "csp\<lparr>backtracking_call_counter := backtracking_call_counter csp + 1\<rparr>"
    from False "1.prems" obtain v ds where s: "select_unassigned_variable a = Some v"
      "map_of a v = Some ds"
      and r: "backtrack_values ?csp a v ds = Inr (csp', Solution s)"
      by (auto simp: backtrack.simps [of csp a] split: option.splits)
    have pc: "propagated ?csp = propagated csp" by (rule propagated_cong) simp
    from "1.IH" [OF False s r s(2)] show ?thesis by (simp add: pc)
  qed
next
  case (2 csp a v)
  then show ?case by (auto simp: backtrack_values.simps)
next
  case (3 csp a v x rest)
  note run = "3.prems"(1) and v = "3.prems"(2) and sub = "3.prems"(3)
  from run obtain arcs new ok where
    arcs: "get_all_neighboring_arcs csp v = Inr arcs"
    and inf: "inference csp (AList.update v [x] a) arcs = Inr (new, ok)"
    by (auto simp: backtrack_values.simps(2) [of csp a v x rest] split: sum.splits)
  from sub have rest: "set rest \<subseteq> set d0" and x: "x \<in> set d0" by simp_all
  show ?case
  proof (cases ok)
    case False
    with run arcs inf have "backtrack_values csp a v rest = Inr (csp', Solution s)"
      by (simp add: backtrack_values.simps(2) [of csp a v x rest])
    from "3.IH"(3) [OF arcs inf refl False this v rest] show ?thesis .
  next
    case True
    with run arcs inf obtain csp1 res1 where
      b: "backtrack csp new = Inr (csp1, res1)"
      by (auto simp: backtrack_values.simps(2) [of csp a v x rest] split: sum.splits)
    show ?thesis
    proof (cases "truthy res1")
      case True
      with run arcs inf \<open>ok\<close> b have res1: "res1 = Solution s" "csp1 = csp'"
        by (simp_all add: backtrack_values.simps(2) [of csp a v x rest])
      from "3.IH"(1) [OF arcs inf refl \<open>ok\<close> b [unfolded res1]]
      have post: "assignment_done s" "shrunk s new" "propagated csp new \<longrightarrow> propagated csp s"
        by simp_all
      have "propagated csp new" if p: "propagated csp a"
      proof -
        have "\<forall>(i, j)\<in>{(i, j). tight csp i j}.
          (i, j) \<in> set arcs \<or> stable csp (AList.update v [x] a) i j"
          using assign_keeps_stable [OF p v x arcs] by auto
        from inference_stable [OF inf \<open>ok\<close> _ this] show ?thesis
          by (simp add: propagated_def)
      qed
      moreover from v x have "shrunk (AList.update v [x] a) a" by (simp add: shrunk_update)
      with inference_shrunk [OF inf] post(2) have "shrunk s a" by (blast intro: shrunk_trans)
      ultimately show ?thesis using post by blast
    next
      case False
      with run arcs inf \<open>ok\<close> b have r: "backtrack_values csp1 a v rest = Inr (csp', Solution s)"
        by (simp add: backtrack_values.simps(2) [of csp a v x rest])
      from backtrack_constraints(1) [OF b] have pc: "propagated csp1 = propagated csp"
        by (rule propagated_cong)
      from "3.IH"(2) [OF arcs inf refl \<open>ok\<close> b refl False r v rest] show ?thesis
        by (simp add: pc)
    qed
  qed
qed

text \<open>A network is two-way when every arc joins declared variables, is registered in
  both directions, and one of the two directions is tight.\<close>

definition two_way :: "('n, 'v) csp \<Rightarrow> bool" where
  "two_way csp =
     list_all
       (\<lambda>(i, j). map_of (domains csp) i \<noteq> None \<and> map_of (domains csp) j \<noteq> None \<and>
                 (tight csp i j \<or> tight csp j i))
       (get_all_arcs csp)"

lemma registered_arc:
  assumes "constraint_of csp i j = Some pairs"
  shows "(i, j) \<in> set (get_all_arcs csp)"
proof -
  from assms obtain ci where "map_of (constraints csp) i = Some ci" "map_of ci j = Some pairs"
    by (auto simp: constraint_of_def split: option.splits)
  then have "(i, ci) \<in> set (constraints csp)" "(j, pairs) \<in> set ci"
    by (auto dest: map_of_SomeD)
  then show ?thesis by (force simp: get_all_arcs_def)
qed

lemma shrunk_empty:
  assumes "shrunk a' a" "map_of a k = Some []"
  shows "map_of a' k = Some []"
  using assms unfolding shrunk_def by fastforce

lemma shrunk_defined:
  assumes "shrunk a' a" "map_of a k \<noteq> None"
  shows "map_of a' k \<noteq> None"
  using assms unfolding shrunk_def by fastforce

text \<open>
  Claim C1, as stated, fails. On the unsatisfiable network the returned mapping gives \<open>B\<close>
  the empty domain, so not every variable has a value. On the network whose two
  directions disagree the returned mapping is \<open>X = 1\<close>, \<open>Y = 2\<close>, and \<open>(1, 2)\<close> is not among
  the pairs stored for \<open>X \<rightarrow> Y\<close>.
\<close>

theorem backtracking_search_unsound_counterexample:
  "backtracking_search unsat_network
     = Inr (unsat_network\<lparr>backtracking_call_counter := 1\<rparr>,
            Solution [(''A'', [1]), (''B'', [])])
   \<and> backtracking_search asym_network
     = Inr (asym_network\<lparr>backtracking_call_counter := 2\<rparr>,
            Solution [(''X'', [1]), (''Y'', [2])])
   \<and> constraint_of asym_network ''X'' ''Y'' = Some [(1, 1), (2, 2)]"
  by (simp add: run_simps unsat_network_def asym_network_def)

text \<open>
  Claim C1, amended. For a two-way network, whenever \<open>backtracking_search\<close> returns a
  mapping in which no domain is empty, the mapping has the declared variables as its
  keys, gives each exactly one value, and for every registered arc \<open>(i, j)\<close> the pair of
  the values of \<open>i\<close> and \<open>j\<close> is among the pairs stored for \<open>i \<rightarrow> j\<close>.
\<close>

theorem backtracking_search_sound:
  assumes tw: "two_way csp"
    and run: "backtracking_search csp = Inr (csp', Solution s)"
    and ne: "list_all (\<lambda>(k, d). d \<noteq> []) s"
  shows "map fst s = map fst (domains csp)
    \<and> (\<forall>k d. map_of s k = Some d \<longrightarrow> (\<exists>x. d = [x]))
    \<and> (\<forall>i j pairs. constraint_of csp i j = Some pairs \<longrightarrow>
          (\<exists>x y. map_of s i = Some [x] \<and> map_of s j = Some [y] \<and> (x, y) \<in> set pairs))"
proof -
  from run obtain a0 ok where
    inf: "inference csp (domains csp) (get_all_arcs csp) = Inr (a0, ok)"
    and b: "backtrack csp a0 = Inr (csp', Solution s)"
    by (auto simp: backtracking_search_def split: sum.splits)
  from backtrack_sound(1) [OF b]
  have fin: "assignment_done s" and sh: "shrunk s a0"
    and keep: "propagated csp a0 \<longrightarrow> propagated csp s" by simp_all
  from sh inference_shrunk [OF inf] have sh0: "shrunk s (domains csp)" by (rule shrunk_trans)
  have nonempty: "d \<noteq> []" if "map_of s k = Some d" for k d
    using map_of_SomeD [OF that] ne by (auto simp: list_all_iff)
  have ok
  proof (rule ccontr)
    assume "\<not> ok"
    with inf have "\<exists>k. map_of a0 k = Some []" by (simp add: inference_failed)
    then obtain k where "map_of a0 k = Some []" ..
    from shrunk_empty [OF sh this] nonempty show False by blast
  qed
  have "\<forall>(i, j)\<in>{(i, j). tight csp i j}.
      (i, j) \<in> set (get_all_arcs csp) \<or> stable csp (domains csp) i j"
    by (auto elim!: tightD intro: registered_arc)
  from inference_stable [OF inf \<open>ok\<close> _ this] have "propagated csp a0"
    by (simp add: propagated_def)
  with keep have ps: "propagated csp s" by simp
  have single: "\<exists>x. d = [x]" if "map_of s k = Some d" for k d
  proof -
    from fin that have "\<not> length d > 1" by (auto simp: assignment_done_iff)
    with nonempty [OF that] show ?thesis by (cases d) auto
  qed
  have arc: "\<exists>x y. map_of s i = Some [x] \<and> map_of s j = Some [y] \<and> (x, y) \<in> set pairs"
    if c: "constraint_of csp i j = Some pairs" for i j pairs
  proof -
    from tw registered_arc [OF c]
    have dom: "map_of (domains csp) i \<noteq> None" "map_of (domains csp) j \<noteq> None"
      and t: "tight csp i j \<or> tight csp j i"
      by (auto simp: two_way_def list_all_iff)
    from dom shrunk_defined [OF sh0] single obtain x y where
      xy: "map_of s i = Some [x]" "map_of s j = Some [y]" by blast
    from t have "(x, y) \<in> set pairs"
    proof
      assume "tight csp i j"
      with ps have "stable csp s i j" by (simp add: propagated_def)
      with xy show ?thesis by (simp add: stable_iff [OF c] supported_def)
    next
      assume t': "tight csp j i"
      then obtain mirrored where c': "constraint_of csp j i = Some mirrored"
        and m: "\<forall>x y. (x, y) \<in> set mirrored \<longrightarrow> (y, x) \<in> set pairs"
        using c by (auto elim!: tightD)
      from ps t' have "stable csp s j i" by (simp add: propagated_def)
      with xy have "(y, x) \<in> set mirrored" by (simp add: stable_iff [OF c'] supported_def)
      with m show ?thesis by simp
    qed
    with xy show ?thesis by simp
  qed
  from sh0 have "map fst s = map fst (domains csp)" by (simp add: shrunk_def)
  with single arc show ?thesis by blast
qed

lemma xyz_run:
  "backtracking_search xyz_network
     = Inr (xyz_network\<lparr>backtracking_call_counter := 3\<rparr>,
            Solution [(''X'', [1]), (''Y'', [2]), (''Z'', [3])])"
  by (simp add: run_simps xyz_network_def)

lemma xyz_two_way: "two_way xyz_network"
  by (simp add: two_way_def tight_def constraint_of_def get_all_arcs_def xyz_network_def)

theorem backtracking_search_sound_witness:
  "two_way xyz_network
   \<and> backtracking_search xyz_network
       = Inr (xyz_network\<lparr>backtracking_call_counter := 3\<rparr>,
              Solution [(''X'', [1]), (''Y'', [2]), (''Z'', [3])])
   \<and> list_all (\<lambda>(k, d). d \<noteq> []) [(''X'', [1::int]), (''Y'', [2]), (''Z'', [3])]
   \<and> (\<exists>x y. map_of [(''X'', [1::int]), (''Y'', [2]), (''Z'', [3])] ''X'' = Some [x]
           \<and> map_of [(''X'', [1::int]), (''Y'', [2]), (''Z'', [3])] ''Y'' = Some [y]
           \<and> (x, y) \<in> set [(1, 2), (1, 3), (2, 3)])"
proof -
  have ne: "list_all (\<lambda>(k, d). d \<noteq> []) [(''X'', [1::int]), (''Y'', [2]), (''Z'', [3])]"
    by simp
  have c: "constraint_of xyz_network ''X'' ''Y'' = Some [(1, 2), (1, 3), (2, 3)]"
    by (simp add: constraint_of_def xyz_network_def)
  from backtracking_search_sound [OF xyz_two_way xyz_run ne] c
  have "\<exists>x y. map_of [(''X'', [1::int]), (''Y'', [2]), (''Z'', [3])] ''X'' = Some [x]
           \<and> map_of [(''X'', [1::int]), (''Y'', [2]), (''Z'', [3])] ''Y'' = Some [y]
           \<and> (x, y) \<in> set [(1, 2), (1, 3), (2, 3)]"
    by blast
  with xyz_two_way xyz_run ne show ?thesis by blast
qed

section \<open>The search over a store of objects\<close>

text \<open>
  Branch isolation is about aliasing, so here the assignment is what it is in Python: a
  dictionary object whose entries refer to list objects. The store is the list of all
  objects made so far, an address is an index into it, and allocation appends. The
  constraint table is only read by the search and stays a value of the record.
\<close>

type_synonym addr = nat

datatype ('n, 'v) obj = ListObj "'v list" | DictObj "('n \<times> addr) list"

type_synonym ('n, 'v) heap = "('n, 'v) obj list"

definition get_list :: "('n, 'v) heap \<Rightarrow> addr \<Rightarrow> error + 'v list" where
  "get_list h p =
     (if p < length h then (case h ! p of ListObj xs \<Rightarrow> Inr xs | DictObj es \<Rightarrow> Inl BadReference)
      else Inl BadReference)"

definition get_dict :: "('n, 'v) heap \<Rightarrow> addr \<Rightarrow> error + ('n \<times> addr) list" where
  "get_dict h p =
     (if p < length h then (case h ! p of DictObj es \<Rightarrow> Inr es | ListObj xs \<Rightarrow> Inl BadReference)
      else Inl BadReference)"

text \<open>The dictionary at an address as a value: every entry with the list it refers
  to. The functions that only read an assignment read this view.\<close>

fun deref_all :: "('n, 'v) heap \<Rightarrow> ('n \<times> addr) list \<Rightarrow> error + ('n, 'v list) dict" where
  "deref_all h [] = Inr []"
| "deref_all h ((k, p) # rest) =
     (case get_list h p of
        Inl e \<Rightarrow> Inl e
      | Inr xs \<Rightarrow> (case deref_all h rest of Inl e \<Rightarrow> Inl e | Inr s \<Rightarrow> Inr ((k, xs) # s)))"

definition h_view :: "('n, 'v) heap \<Rightarrow> addr \<Rightarrow> error + ('n, 'v list) dict" where
  "h_view h a = (case get_dict h a of Inl e \<Rightarrow> Inl e | Inr es \<Rightarrow> deref_all h es)"

text \<open>\<open>copy.deepcopy(assignment)\<close>: a new dictionary and, for every list it refers to,
  a new list with the same values (the values themselves are atoms). The memo of
  \<open>deepcopy\<close> maps an old list to its copy, so two entries that shared a list share the
  copy.\<close>

fun deepcopy_entries ::
  "('n, 'v) heap \<Rightarrow> (addr \<times> addr) list \<Rightarrow> ('n \<times> addr) list \<Rightarrow>
     error + (('n, 'v) heap \<times> ('n \<times> addr) list)" where
  "deepcopy_entries h memo [] = Inr (h, [])"
| "deepcopy_entries h memo ((k, p) # rest) =
     (case map_of memo p of
        Some p' \<Rightarrow>
          (case deepcopy_entries h memo rest of
             Inl e \<Rightarrow> Inl e
           | Inr (h', es) \<Rightarrow> Inr (h', (k, p') # es))
      | None \<Rightarrow>
          (case get_list h p of
             Inl e \<Rightarrow> Inl e
           | Inr xs \<Rightarrow>
               (case deepcopy_entries (h @ [ListObj xs]) ((p, length h) # memo) rest of
                  Inl e \<Rightarrow> Inl e
                | Inr (h', es) \<Rightarrow> Inr (h', (k, length h) # es))))"

definition deepcopy :: "('n, 'v) heap \<Rightarrow> addr \<Rightarrow> error + (('n, 'v) heap \<times> addr)" where
  "deepcopy h a =
     (case get_dict h a of
        Inl e \<Rightarrow> Inl e
      | Inr es \<Rightarrow>
          (case deepcopy_entries (h @ [DictObj []]) [] es of
             Inl e \<Rightarrow> Inl e
           | Inr (h', es') \<Rightarrow> Inr (h'[length h := DictObj es'], length h)))"

text \<open>\<^verbatim>\<open>CSP.revise\<close> on the store: the scan reads the lists of \<open>i\<close> and \<open>j\<close>, and the
  removals overwrite the list object of \<open>i\<close>.\<close>

definition h_revise ::
  "('n, 'v) csp \<Rightarrow> ('n, 'v) heap \<Rightarrow> addr \<Rightarrow> 'n \<Rightarrow> 'n \<Rightarrow> error + (('n, 'v) heap \<times> bool)" where
  "h_revise csp h assignment i j =
     (case get_dict h assignment of
        Inl e \<Rightarrow> Inl e
      | Inr es \<Rightarrow>
          (case deref_all h es of
             Inl e \<Rightarrow> Inl e
           | Inr view \<Rightarrow>
               (case map_of es i of
                  None \<Rightarrow> Inl KeyError
                | Some p \<Rightarrow>
                    (case get_list h p of
                       Inl e \<Rightarrow> Inl e
                     | Inr di \<Rightarrow>
                         (case find_inconsistencies (constraint_of csp i j) (map_of view j) di of
                            Inl e \<Rightarrow> Inl e
                          | Inr inconsistencies \<Rightarrow>
                              (case remove_values inconsistencies di of
                                 Inl e \<Rightarrow> Inl e
                               | Inr di' \<Rightarrow>
                                   Inr (h[p := ListObj di'], length inconsistencies > 0)))))))"

definition heap_size :: "('n, 'v) heap \<Rightarrow> nat" where
  "heap_size h = sum_list (map (\<lambda>ob. case ob of ListObj xs \<Rightarrow> length xs | DictObj es \<Rightarrow> 0) h)"

lemma heap_size_update:
  assumes "p < length h" "h ! p = ListObj xs"
  shows "heap_size (h[p := ListObj ys]) + length xs = heap_size h + length ys"
  using assms
proof (induction h arbitrary: p)
  case Nil
  then show ?case by simp
next
  case (Cons ob h)
  show ?case
  proof (cases p)
    case 0
    with Cons.prems show ?thesis by (simp add: heap_size_def)
  next
    case (Suc q)
    with Cons.prems Cons.IH [of q] show ?thesis by (simp add: heap_size_def)
  qed
qed

lemma h_revise_unchanged:
  assumes "h_revise csp h a i j = Inr (h', False)"
  shows "h' = h"
proof -
  from assms obtain es p di incs di' where
    "get_list h p = Inr di" and "remove_values incs di = Inr di'"
    and h': "h' = h[p := ListObj di']" and "\<not> length incs > 0"
    by (auto simp: h_revise_def split: option.splits sum.splits)
  then have "di' = di" "p < length h" "h ! p = ListObj di"
    by (auto simp: get_list_def split: if_splits obj.splits)
  with h' show ?thesis by (metis list_update_id)
qed

lemma h_revise_shrinks:
  assumes "h_revise csp h a i j = Inr (h', True)"
  shows "heap_size h' < heap_size h"
proof -
  from assms obtain es p di incs di' where
    g: "get_list h p = Inr di" and rm: "remove_values incs di = Inr di'"
    and h': "h' = h[p := ListObj di']" and "length incs > 0"
    by (auto simp: h_revise_def split: option.splits sum.splits)
  from g have "p < length h" "h ! p = ListObj di"
    by (auto simp: get_list_def split: if_splits obj.splits)
  from heap_size_update [OF this, of di'] remove_values_length [OF rm] \<open>length incs > 0\<close> h'
  show ?thesis by (cases incs) auto
qed

text \<open>\<^verbatim>\<open>CSP.inference\<close> on the store. The store gives an address to every list and
  dictionary; names are values here, compared as in \<open>inference\<close>.\<close>

function h_inference ::
  "('n, 'v) csp \<Rightarrow> ('n, 'v) heap \<Rightarrow> addr \<Rightarrow> ('n \<times> 'n) list \<Rightarrow> error + (('n, 'v) heap \<times> bool)" where
  "h_inference csp h assignment queue =
     (if queue = [] then Inr (h, True)
      else
        (case last queue of (xi, xj) \<Rightarrow>
          (case h_revise csp h assignment xi xj of
             Inl e \<Rightarrow> Inl e
           | Inr (h', revised) \<Rightarrow>
               if revised then
                 (case h_view h' assignment of
                    Inl e \<Rightarrow> Inl e
                  | Inr view \<Rightarrow>
                      (case map_of view xi of
                         None \<Rightarrow> Inl KeyError
                       | Some d \<Rightarrow>
                           if length d = 0 then Inr (h', False)
                           else
                             (case get_all_neighboring_arcs csp xi of
                                Inl e \<Rightarrow> Inl e
                              | Inr arcs \<Rightarrow>
                                  h_inference csp h' assignment
                                    (butlast queue @
                                     map (\<lambda>(xk, y). (xk, xi))
                                       (filter (\<lambda>(xk, y). xk \<noteq> xj) arcs)))))
               else h_inference csp h' assignment (butlast queue))))"
  by pat_completeness auto
termination
proof (relation "measures [\<lambda>(csp, h, a, q). heap_size h, \<lambda>(csp, h, a, q). length q]", goal_cases)
  case 1
  show ?case by simp
next
  case 2
  then show ?case by (auto dest: h_revise_shrinks)
next
  case 3
  then show ?case by (auto dest: h_revise_unchanged)
qed

declare h_inference.simps [simp del]

text \<open>\<^verbatim>\<open>CSP.backtrack\<close> on the store returns \<open>False\<close> or the reference to the assignment it
  was given.\<close>

datatype h_result = H_Failure | H_Solution addr

definition h_truthy :: "('n, 'v) heap \<Rightarrow> h_result \<Rightarrow> error + bool" where
  "h_truthy h result =
     (case result of
        H_Failure \<Rightarrow> Inr False
      | H_Solution a \<Rightarrow> (case get_dict h a of Inl e \<Rightarrow> Inl e | Inr es \<Rightarrow> Inr (es \<noteq> [])))"

text \<open>
  \<^verbatim>\<open>CSP.backtrack\<close> on the store, with fuel for the depth of the calls (\<open>None\<close> when it
  runs out). The \<open>for\<close> loop iterates over the list object \<open>assignment[variable]\<close> itself:
  every round reads the list as the store holds it then and takes the element at the
  index \<open>i\<close>, as Python's list iterator does. Each round copies the assignment, puts a new
  one-element list under \<open>variable\<close> in the copy, and runs \<open>inference\<close> and the recursive
  call on the copy.
\<close>

fun h_backtrack ::
    "nat \<Rightarrow> ('n, 'v) csp \<Rightarrow> ('n, 'v) heap \<Rightarrow> addr \<Rightarrow>
       (error + (('n, 'v) heap \<times> ('n, 'v) csp \<times> h_result)) option"
  and h_backtrack_values ::
    "nat \<Rightarrow> ('n, 'v) csp \<Rightarrow> ('n, 'v) heap \<Rightarrow> addr \<Rightarrow> 'n \<Rightarrow> addr \<Rightarrow> nat \<Rightarrow>
       (error + (('n, 'v) heap \<times> ('n, 'v) csp \<times> h_result)) option" where
  "h_backtrack 0 csp h assignment = None"
| "h_backtrack (Suc fuel) csp h assignment =
     (case h_view h assignment of
        Inl e \<Rightarrow> Some (Inl e)
      | Inr view \<Rightarrow>
          if assignment_done view then
            Some (Inr (h, csp\<lparr>backtracking_call_counter := backtracking_call_counter csp + 1\<rparr>,
                       H_Solution assignment))
          else
            (case select_unassigned_variable view of
               None \<Rightarrow> Some (Inl KeyError)
             | Some variable \<Rightarrow>
                 (case get_dict h assignment of
                    Inl e \<Rightarrow> Some (Inl e)
                  | Inr es \<Rightarrow>
                      (case map_of es variable of
                         None \<Rightarrow> Some (Inl KeyError)
                       | Some pv \<Rightarrow>
                           h_backtrack_values fuel
                             (csp\<lparr>backtracking_call_counter := backtracking_call_counter csp + 1\<rparr>)
                             h assignment variable pv 0))))"
| "h_backtrack_values 0 csp h assignment variable pv i = None"
| "h_backtrack_values (Suc fuel) csp h assignment variable pv i =
     (case get_list h pv of
        Inl e \<Rightarrow> Some (Inl e)
      | Inr ds \<Rightarrow>
          if i < length ds then
            (case deepcopy h assignment of
               Inl e \<Rightarrow> Some (Inl e)
             | Inr (h1, new_assignment) \<Rightarrow>
                 (case get_dict h1 new_assignment of
                    Inl e \<Rightarrow> Some (Inl e)
                  | Inr es \<Rightarrow>
                      (case get_all_neighboring_arcs csp variable of
                         Inl e \<Rightarrow> Some (Inl e)
                       | Inr arcs \<Rightarrow>
                           (case h_inference csp
                                   ((h1 @ [ListObj [ds ! i]])
                                      [new_assignment :=
                                         DictObj (AList.update variable (length h1) es)])
                                   new_assignment arcs of
                              Inl e \<Rightarrow> Some (Inl e)
                            | Inr (h3, consistent) \<Rightarrow>
                                if consistent then
                                  (case h_backtrack fuel csp h3 new_assignment of
                                     None \<Rightarrow> None
                                   | Some (Inl e) \<Rightarrow> Some (Inl e)
                                   | Some (Inr (h4, csp', result)) \<Rightarrow>
                                       (case h_truthy h4 result of
                                          Inl e \<Rightarrow> Some (Inl e)
                                        | Inr t \<Rightarrow>
                                            if t then Some (Inr (h4, csp', result))
                                            else h_backtrack_values fuel csp' h4 assignment
                                                   variable pv (i + 1)))
                                else h_backtrack_values fuel csp h3 assignment
                                       variable pv (i + 1)))))
          else
            Some (Inr (h, csp\<lparr>backtracking_fail_counter := backtracking_fail_counter csp + 1\<rparr>,
                       H_Failure)))"

text \<open>The state \<open>{A: [1], B: [1], C: [1, 2]}\<close> of the network over \<open>A\<close>, \<open>B\<close>, \<open>C\<close> in a
  store: the value \<open>1\<close> for \<open>C\<close> fails after emptying the copied list of \<open>B\<close>, the value
  \<open>2\<close> succeeds.\<close>

definition abc_heap :: "(string, int) heap" where
  "abc_heap = [DictObj [(''A'', 1), (''B'', 2), (''C'', 3)], ListObj [1], ListObj [1], ListObj [1, 2]]"

lemma take_prefix_iff:
  "take (length h) h' = h \<longleftrightarrow> length h \<le> length h' \<and> (\<forall>p<length h. h' ! p = h ! p)"
  by (auto simp: list_eq_iff_nth_eq)

lemma get_list_Inr:
  "get_list h p = Inr xs \<longleftrightarrow> p < length h \<and> h ! p = ListObj xs"
  by (auto simp: get_list_def split: obj.splits)

lemma get_dict_Inr:
  "get_dict h p = Inr es \<longleftrightarrow> p < length h \<and> h ! p = DictObj es"
  by (auto simp: get_dict_def split: obj.splits)

lemma prefix_snoc:
  assumes "take (Suc (length h)) h' = h @ [x]"
  shows "take (length h) h' = h" and "Suc (length h) \<le> length h'"
proof -
  from assms have "length (take (Suc (length h)) h') = Suc (length h)" by simp
  then show len: "Suc (length h) \<le> length h'" by simp
  from assms have "take (length h) (take (Suc (length h)) h') = take (length h) (h @ [x])"
    by simp
  then show "take (length h) h' = h" by (simp add: min_def)
qed

lemma deepcopy_entries_frame:
  assumes "deepcopy_entries h memo es = Inr (h', es')"
    and "\<forall>q\<in>snd ` set memo. b \<le> q \<and> q < length h"
    and "b \<le> length h"
  shows "take (length h) h' = h \<and> (\<forall>q\<in>snd ` set es'. b \<le> q \<and> q < length h')"
  using assms
proof (induction es arbitrary: h memo es')
  case Nil
  then show ?case by simp
next
  case (Cons e es)
  obtain k p where e: "e = (k, p)" by (cases e)
  show ?case
  proof (cases "map_of memo p")
    case (Some p')
    with Cons.prems(1) e obtain es0 where r: "deepcopy_entries h memo es = Inr (h', es0)"
      and es': "es' = (k, p') # es0"
      by (auto split: sum.splits)
    from Some have "p' \<in> snd ` set memo" by (force dest: map_of_SomeD)
    with Cons.prems(2) have "b \<le> p'" "p' < length h" by auto
    moreover from Cons.IH [OF r Cons.prems(2,3)]
    have IH: "take (length h) h' = h" "\<forall>q\<in>snd ` set es0. b \<le> q \<and> q < length h'" by simp_all
    moreover from IH(1) have "length h \<le> length h'" by (simp add: take_prefix_iff)
    ultimately show ?thesis using es' by auto
  next
    case None
    with Cons.prems(1) e obtain xs es0 where g: "get_list h p = Inr xs"
      and r: "deepcopy_entries (h @ [ListObj xs]) ((p, length h) # memo) es = Inr (h', es0)"
      and es': "es' = (k, length h) # es0"
      by (auto split: sum.splits)
    from Cons.prems(2,3)
    have m: "\<forall>q\<in>snd ` set ((p, length h) # memo). b \<le> q \<and> q < length (h @ [ListObj xs])"
      by auto
    from Cons.prems(3) have "b \<le> length (h @ [ListObj xs])" by simp
    from Cons.IH [OF r m this]
    have IH: "take (length (h @ [ListObj xs])) h' = h @ [ListObj xs]"
      "\<forall>q\<in>snd ` set es0. b \<le> q \<and> q < length h'" by simp_all
    from IH(1) have "take (Suc (length h)) h' = h @ [ListObj xs]" by simp
    note pre = prefix_snoc [OF this]
    from pre(2) have len: "length h < length h'" by simp
    note pre(1)
    with IH(2) len Cons.prems(3) es' show ?thesis by auto
  qed
qed

lemma deepcopy_frame:
  assumes "deepcopy h a = Inr (h', a')"
  obtains es' where "a' = length h" "take (length h) h' = h" "get_dict h' a' = Inr es'"
    "\<forall>q\<in>snd ` set es'. length h < q \<and> q < length h'"
proof -
  from assms obtain es h1 es' where "get_dict h a = Inr es"
    and r: "deepcopy_entries (h @ [DictObj []]) [] es = Inr (h1, es')"
    and h': "h' = h1[length h := DictObj es']" and a': "a' = length h"
    by (auto simp: deepcopy_def split: sum.splits)
  from deepcopy_entries_frame [OF r, of "Suc (length h)"]
  have pre: "take (Suc (length h)) h1 = h @ [DictObj []]"
    and fresh: "\<forall>q\<in>snd ` set es'. length h < q \<and> q < length h1" by auto
  note p = prefix_snoc [OF pre]
  from p(2) have len: "length h < length h1" by simp
  from p(1) h' have "take (length h) h' = h" by simp
  moreover from len h' a' have "get_dict h' a' = Inr es'" by (simp add: get_dict_Inr)
  moreover from fresh h' have "\<forall>q\<in>snd ` set es'. length h < q \<and> q < length h'" by simp
  ultimately show ?thesis using a' by (auto intro: that)
qed

text \<open>What revise writes: one list, at an address the dictionary holds.\<close>

lemma h_revise_frame:
  assumes "h_revise csp h a i j = Inr (h', r)"
  obtains es p xs ys where "get_dict h a = Inr es" "p \<in> snd ` set es"
    "h ! p = ListObj xs" "p < length h" "h' = h[p := ListObj ys]"
proof -
  from assms obtain es p xs ys where g: "get_dict h a = Inr es" and m: "map_of es i = Some p"
    and l: "get_list h p = Inr xs" and h': "h' = h[p := ListObj ys]"
    by (auto simp: h_revise_def split: sum.splits option.splits)
  from m have "p \<in> snd ` set es" by (force dest: map_of_SomeD)
  with g l h' show ?thesis by (auto simp: get_list_Inr intro: that)
qed

lemma h_revise_dict:
  assumes "h_revise csp h a i j = Inr (h', r)" and "get_dict h a = Inr es"
  shows "get_dict h' a = Inr es \<and> length h' = length h
    \<and> (\<forall>q. q \<notin> snd ` set es \<longrightarrow> h' ! q = h ! q)"
proof -
  from assms(1) obtain es0 p xs ys where f: "get_dict h a = Inr es0" "p \<in> snd ` set es0"
    "h ! p = ListObj xs" "p < length h" "h' = h[p := ListObj ys]"
    by (rule h_revise_frame)
  with assms(2) have "es0 = es" by simp
  from f(3) assms(2) have "p \<noteq> a" by (auto simp: get_dict_Inr)
  with f(5) assms(2) have "get_dict h' a = Inr es" by (simp add: get_dict_Inr)
  moreover from f(5) have "length h' = length h" by simp
  moreover have "h' ! q = h ! q" if "q \<notin> snd ` set es" for q
  proof -
    from that f(2) \<open>es0 = es\<close> have "q \<noteq> p" by auto
    with f(5) show ?thesis by simp
  qed
  ultimately show ?thesis by blast
qed

lemma h_inference_frame:
  "h_inference csp h a q = Inr (h', ok) \<Longrightarrow> get_dict h a = Inr es \<Longrightarrow>
   get_dict h' a = Inr es \<and> length h' = length h \<and> (\<forall>p. p \<notin> snd ` set es \<longrightarrow> h' ! p = h ! p)"
proof (induction csp h a q rule: h_inference.induct)
  case (1 csp h a q)
  show ?case
  proof (cases "q = []")
    case True
    with "1.prems" show ?thesis by (simp add: h_inference.simps)
  next
    case False
    obtain xi xj where l: "last q = (xi, xj)" by (cases "last q")
    from "1.prems"(1) False l obtain h1 revised where
      rv: "h_revise csp h a xi xj = Inr (h1, revised)"
      by (auto simp: h_inference.simps [of csp h a q] split: sum.splits)
    note step = h_revise_dict [OF rv "1.prems"(2)]
    show ?thesis
    proof (cases revised)
      case True
      from "1.prems"(1) False l rv True obtain view d where
        view: "h_view h1 a = Inr view" and d: "map_of view xi = Some d"
        by (auto simp: h_inference.simps [of csp h a q] split: sum.splits option.splits)
      show ?thesis
      proof (cases "length d = 0")
        case True
        with "1.prems"(1) False l rv \<open>revised\<close> view d have "h' = h1"
          by (auto simp: h_inference.simps [of csp h a q])
        with step show ?thesis by simp
      next
        case nonempty: False
        from "1.prems"(1) False l rv \<open>revised\<close> view d nonempty obtain arcs where
          arcs: "get_all_neighboring_arcs csp xi = Inr arcs"
          and rec: "h_inference csp h1 a
             (butlast q @ map (\<lambda>(xk, y). (xk, xi)) (filter (\<lambda>(xk, y). xk \<noteq> xj) arcs))
             = Inr (h', ok)"
          by (auto simp: h_inference.simps [of csp h a q] split: sum.splits)
        from "1.IH"(1) [OF False l [symmetric] rv refl \<open>revised\<close> view d nonempty arcs rec] step
        show ?thesis by simp
      qed
    next
      case not_revised: False
      from "1.prems"(1) False l rv not_revised
      have rec: "h_inference csp h1 a (butlast q) = Inr (h', ok)"
        by (auto simp: h_inference.simps [of csp h a q])
      from "1.IH"(2) [OF False l [symmetric] rv refl not_revised rec] step
      show ?thesis by simp
    qed
  qed
qed

lemma prefix_trans:
  assumes "take (length h1) h2 = h1" "take (length h0) h1 = h0"
  shows "take (length h0) h2 = h0"
  using assms unfolding take_prefix_iff by auto

lemma update_values: "snd ` set (AList.update k x al) \<subseteq> insert x (snd ` set al)"
  by (induction al) auto

text \<open>One round of the loop up to the end of its propagation leaves the objects of the
  store it started from as they were.\<close>

lemma round_frame:
  fixes h :: "('n, 'v) heap"
  assumes cp: "deepcopy h a = Inr (h1, na)" and g: "get_dict h1 na = Inr es"
    and inf: "h_inference csp
        ((h1 @ [ListObj [x]])[na := DictObj (AList.update v (length h1) es)])
        na arcs = Inr (h3, ok)"
  shows "take (length h) h3 = h"
proof -
  let ?h2 = "(h1 @ [ListObj [x]])[na := DictObj (AList.update v (length h1) es)]"
  from cp obtain es' where na: "na = length h" and pre1: "take (length h) h1 = h"
    and g': "get_dict h1 na = Inr es'"
    and fresh: "\<forall>q\<in>snd ` set es'. length h < q \<and> q < length h1"
    by (rule deepcopy_frame)
  from g g' have "es' = es" by simp
  from g have na_lt: "na < length h1" by (simp add: get_dict_Inr)
  then have g2: "get_dict ?h2 na = Inr (AList.update v (length h1) es)"
    by (simp add: get_dict_Inr)
  from h_inference_frame [OF inf g2]
  have len3: "length h3 = length ?h2"
    and same: "\<forall>p. p \<notin> snd ` set (AList.update v (length h1) es) \<longrightarrow> h3 ! p = ?h2 ! p"
    by simp_all
  have new_entries: "length h < q"
    if "q \<in> snd ` set (AList.update v (length h1) es)" for q
  proof -
    from that update_values [of v "length h1" es]
    have "q \<in> snd ` set es \<or> q = length h1" by auto
    with fresh \<open>es' = es\<close> na na_lt show ?thesis by auto
  qed
  from pre1 have le1: "length h \<le> length h1"
    and nth1: "\<forall>p<length h. h1 ! p = h ! p" by (simp_all add: take_prefix_iff)
  have "h3 ! p = h ! p" if "p < length h" for p
  proof -
    from that new_entries have "p \<notin> snd ` set (AList.update v (length h1) es)" by fastforce
    with same have "h3 ! p = ?h2 ! p" by simp
    also from that na le1 have "\<dots> = h1 ! p" by (simp add: nth_append)
    also from that nth1 have "\<dots> = h ! p" by simp
    finally show ?thesis .
  qed
  with len3 le1 show ?thesis by (simp add: take_prefix_iff)
qed

lemma branch_frame:
  fixes csp :: "('n, 'v) csp" and h :: "('n, 'v) heap"
  shows "(h_backtrack fuel csp h a = Some (Inr (h', csp', r)) \<longrightarrow> take (length h) h' = h)
   \<and> (h_backtrack_values fuel csp h a v pv i = Some (Inr (h', csp', r)) \<longrightarrow>
        take (length h) h' = h)"
proof (induction fuel arbitrary: csp h a v pv i h' csp' r)
  case 0
  show ?case by simp
next
  case (Suc fuel)
  have loop: "take (length h0) h1 = h0"
    if "h_backtrack_values fuel c h0 a0 v0 p0 i0 = Some (Inr (h1, c1, r1))"
    for c :: "('n, 'v) csp" and h0 :: "('n, 'v) heap" and a0 v0 p0 i0 h1 c1 r1
    by (rule Suc.IH [THEN conjunct2, rule_format, OF that])
  have rec: "take (length h0) h1 = h0"
    if "h_backtrack fuel c h0 a0 = Some (Inr (h1, c1, r1))" 
    for c :: "('n, 'v) csp" and h0 :: "('n, 'v) heap" and a0 h1 c1 r1
    by (rule Suc.IH [THEN conjunct1, rule_format, OF that])
  have "take (length h) h' = h" if run: "h_backtrack (Suc fuel) csp h a = Some (Inr (h', csp', r))"
  proof -
    from run obtain view where view: "h_view h a = Inr view"
      by (auto split: sum.splits)
    show ?thesis
    proof (cases "assignment_done view")
      case True
      with run view show ?thesis by simp
    next
      case False
      with run view obtain c1 variable p where
        "h_backtrack_values fuel c1 h a variable p 0 = Some (Inr (h', csp', r))"
        by (auto split: option.splits sum.splits)
      then show ?thesis by (rule loop)
    qed
  qed
  moreover
  have "take (length h) h' = h"
    if run: "h_backtrack_values (Suc fuel) csp h a v pv i = Some (Inr (h', csp', r))"
  proof -
    from run obtain ds where ds: "get_list h pv = Inr ds" by (auto split: sum.splits)
    show ?thesis
    proof (cases "i < length ds")
      case False
      with run ds show ?thesis by simp
    next
      case True
      from run ds True obtain h1 na es arcs h3 ok where
        cp: "deepcopy h a = Inr (h1, na)" and g: "get_dict h1 na = Inr es"
        and arcs: "get_all_neighboring_arcs csp v = Inr arcs"
        and inf: "h_inference csp
            ((h1 @ [ListObj [ds ! i]])[na := DictObj (AList.update v (length h1) es)])
            na arcs = Inr (h3, ok)"
        by (auto split: sum.splits)
      from round_frame [OF cp g inf] have pre3: "take (length h) h3 = h" .
      show ?thesis
      proof (cases ok)
        case False
        with run ds True cp g arcs inf
        have "h_backtrack_values fuel csp h3 a v pv (i + 1) = Some (Inr (h', csp', r))"
          by simp
        from loop [OF this] pre3 show ?thesis by (rule prefix_trans)
      next
        case ok: True
        with run ds True cp g arcs inf obtain h4 c4 r4 t where
          b: "h_backtrack fuel csp h3 na = Some (Inr (h4, c4, r4))"
          and t: "h_truthy h4 r4 = Inr t"
          by (auto split: option.splits sum.splits)
        from rec [OF b] pre3 have pre4: "take (length h) h4 = h" by (rule prefix_trans)
        show ?thesis
        proof (cases t)
          case True
          with run ds \<open>i < length ds\<close> cp g arcs inf ok b t have "h' = h4" by simp
          with pre4 show ?thesis by simp
        next
          case False
          with run ds \<open>i < length ds\<close> cp g arcs inf ok b t
          have "h_backtrack_values fuel c4 h4 a v pv (i + 1) = Some (Inr (h', csp', r))"
            by simp
          from loop [OF this] pre4 show ?thesis by (rule prefix_trans)
        qed
      qed
    qed
  qed
  ultimately show ?case by blast
qed

lemma deref_all_prefix:
  "take (length h) h' = h \<Longrightarrow> deref_all h es = Inr s \<Longrightarrow> deref_all h' es = Inr s"
proof (induction es arbitrary: s)
  case Nil
  then show ?case by simp
next
  case (Cons e es)
  obtain k p where e: "e = (k, p)" by (cases e)
  with Cons.prems(2) obtain xs s0 where g: "get_list h p = Inr xs"
    and r: "deref_all h es = Inr s0" and s: "s = (k, xs) # s0"
    by (auto split: sum.splits)
  from g Cons.prems(1) have "get_list h' p = Inr xs"
    by (auto simp: get_list_Inr take_prefix_iff)
  with Cons.IH [OF Cons.prems(1) r] e s show ?case by simp
qed

lemma h_view_prefix:
  assumes "take (length h) h' = h" "h_view h a = Inr s"
  shows "h_view h' a = Inr s"
proof -
  from assms(2) obtain es where g: "get_dict h a = Inr es" and d: "deref_all h es = Inr s"
    by (auto simp: h_view_def split: sum.splits)
  from g assms(1) have "get_dict h' a = Inr es" by (auto simp: get_dict_Inr take_prefix_iff)
  with deref_all_prefix [OF assms(1) d] show ?thesis by (simp add: h_view_def)
qed

lemmas store_simps = h_inference.simps h_revise_def h_view_def get_dict_def get_list_def
  deepcopy_def h_truthy_def constraint_of_def list_remove_def assignment_done_def
  select_unassigned_variable_def len_of_def get_all_neighboring_arcs_def

lemma abc_store_run:
  "h_backtrack 5 abc_network abc_heap 0
     = Some (Inr ([DictObj [(''A'', 1), (''B'', 2), (''C'', 3)], ListObj [1], ListObj [1],
                   ListObj [1, 2],
                   DictObj [(''A'', 5), (''B'', 6), (''C'', 8)], ListObj [1], ListObj [],
                   ListObj [1, 2], ListObj [1],
                   DictObj [(''A'', 10), (''B'', 11), (''C'', 13)], ListObj [1], ListObj [1],
                   ListObj [1, 2], ListObj [2]],
                  abc_network\<lparr>backtracking_call_counter := 2\<rparr>, H_Solution 9))"
  by (simp add: store_simps abc_network_def abc_heap_def numeral_eq_Suc)

section \<open>The search on the store and the search on values\<close>

text \<open>
  The functions of the first sections compute on assignments as values. They describe
  the search on the store as long as the assignment is not aliased: the statements below
  relate a store that holds an assignment to that assignment, step by step.
\<close>

text \<open>A store holds the assignment \<open>s\<close> at the address \<open>a\<close>: the dictionary there reads
  as \<open>s\<close>, and no two of its entries share a key or a list.\<close>

definition holds :: "('n, 'v) heap \<Rightarrow> addr \<Rightarrow> ('n, 'v list) dict \<Rightarrow> bool" where
  "holds h a s =
     (case get_dict h a of
        Inl e \<Rightarrow> False
      | Inr es \<Rightarrow> deref_all h es = Inr s \<and> distinct (map fst es) \<and> distinct (map snd es))"

lemma holdsE:
  assumes "holds h a s"
  obtains es where "get_dict h a = Inr es" "deref_all h es = Inr s"
    "distinct (map fst es)" "distinct (map snd es)"
  using assms by (auto simp: holds_def split: sum.splits)

lemma holds_view: "holds h a s \<Longrightarrow> h_view h a = Inr s"
  by (auto simp: holds_def h_view_def split: sum.splits)

lemma deref_all_keys: "deref_all h es = Inr s \<Longrightarrow> map fst s = map fst es"
  by (induction es arbitrary: s) (auto split: sum.splits)

lemma deref_all_lookup:
  "deref_all h es = Inr s \<Longrightarrow>
   map_of s k = (case map_of es k of None \<Rightarrow> None
                 | Some p \<Rightarrow> (case get_list h p of Inl e \<Rightarrow> None | Inr xs \<Rightarrow> Some xs))"
  by (induction es arbitrary: s) (auto split: sum.splits)

lemma deref_all_lists:
  "deref_all h es = Inr s \<Longrightarrow> p \<in> snd ` set es \<Longrightarrow> \<exists>xs. get_list h p = Inr xs"
proof (induction es arbitrary: s)
  case Nil
  then show ?case by simp
next
  case (Cons e es)
  obtain k q where e: "e = (k, q)" by (cases e)
  with Cons.prems(1) obtain xs s0 where g: "get_list h q = Inr xs"
    and r: "deref_all h es = Inr s0"
    by (auto split: sum.splits)
  from Cons.prems(2) e have "p = q \<or> p \<in> snd ` set es" by auto
  with g Cons.IH [OF r] show ?case by blast
qed

lemma deref_all_other:
  assumes "deref_all h es = Inr s" "p \<notin> snd ` set es" "p < length h"
  shows "deref_all (h[p := ob]) es = Inr s"
  using assms
proof (induction es arbitrary: s)
  case Nil
  then show ?case by simp
next
  case (Cons e es)
  obtain k q where e: "e = (k, q)" by (cases e)
  with Cons.prems(1) obtain xs s0 where g: "get_list h q = Inr xs"
    and r: "deref_all h es = Inr s0" and s: "s = (k, xs) # s0"
    by (auto split: sum.splits)
  from Cons.prems(2) e have "q \<noteq> p" "p \<notin> snd ` set es" by auto
  with g have "get_list (h[p := ob]) q = Inr xs" by (simp add: get_list_Inr)
  with Cons.IH [OF r \<open>p \<notin> snd ` set es\<close> Cons.prems(3)] e s show ?case by simp
qed

lemma deref_all_write:
  assumes "deref_all h es = Inr s" "map_of es i = Some p"
    "distinct (map snd es)"
  shows "deref_all (h[p := ListObj ys]) es = Inr (AList.update i ys s)"
  using assms
proof (induction es arbitrary: s)
  case Nil
  then show ?case by simp
next
  case (Cons e es)
  obtain k q where e: "e = (k, q)" by (cases e)
  with Cons.prems(1) obtain xs s0 where g: "get_list h q = Inr xs"
    and r: "deref_all h es = Inr s0" and s: "s = (k, xs) # s0"
    by (auto split: sum.splits)
  from g have q: "q < length h" by (simp add: get_list_Inr)
  show ?case
  proof (cases "k = i")
    case True
    with Cons.prems(2) e have "q = p" by simp
    with Cons.prems(3) e have "p \<notin> snd ` set es" by auto
    from deref_all_other [OF r this] q \<open>q = p\<close>
    have "deref_all (h[p := ListObj ys]) es = Inr s0" by simp
    moreover from q \<open>q = p\<close> have "get_list (h[p := ListObj ys]) q = Inr ys"
      by (simp add: get_list_Inr)
    ultimately show ?thesis using e s True by simp
  next
    case False
    with Cons.prems(2) e have m: "map_of es i = Some p" by simp
    then have "p \<in> snd ` set es" by (force dest: map_of_SomeD)
    with Cons.prems(3) e have "q \<noteq> p" by auto
    with g have "get_list (h[p := ListObj ys]) q = Inr xs" by (simp add: get_list_Inr)
    moreover from Cons.prems(3) e have "distinct (map snd es)" by simp
    note Cons.IH [OF r m this]
    ultimately show ?thesis using e s False by simp
  qed
qed

lemma h_revise_simulates:
  assumes "holds h a s"
  shows "(\<forall>e. revise csp s i j = Inl e \<longrightarrow> h_revise csp h a i j = Inl e)
    \<and> (\<forall>s' r. revise csp s i j = Inr (s', r) \<longrightarrow>
          (\<exists>h'. h_revise csp h a i j = Inr (h', r) \<and> holds h' a s' \<and> length h' = length h))"
proof -
  from assms obtain es where g: "get_dict h a = Inr es" and d: "deref_all h es = Inr s"
    and dk: "distinct (map fst es)" and dp: "distinct (map snd es)"
    by (rule holdsE)
  note lk = deref_all_lookup [OF d]
  show ?thesis
  proof (cases "map_of es i")
    case None
    with lk [of i] g d show ?thesis by (simp add: revise_def h_revise_def)
  next
    case (Some p)
    then have pin: "p \<in> snd ` set es" by (force dest: map_of_SomeD)
    from deref_all_lists [OF d pin] obtain di where di: "get_list h p = Inr di" ..
    with lk [of i] Some have si: "map_of s i = Some di" by simp
    from di g have pa: "p \<noteq> a" "p < length h" by (auto simp: get_list_Inr get_dict_Inr)
    show ?thesis
    proof (cases "find_inconsistencies (constraint_of csp i j) (map_of s j) di")
      case (Inl e)
      with si g d Some di show ?thesis by (simp add: revise_def h_revise_def)
    next
      case (Inr incs)
      show ?thesis
      proof (cases "remove_values incs di")
        case (Inl e)
        with Inr si g d Some di show ?thesis by (simp add: revise_def h_revise_def)
      next
        case rm: (Inr di')
        let ?h = "h[p := ListObj di']"
        from pa g have "get_dict ?h a = Inr es" by (simp add: get_dict_Inr)
        moreover note deref_all_write [OF d Some dp, of di']
        ultimately have "holds ?h a (AList.update i di' s)"
          using dk dp by (simp add: holds_def)
        with Inr rm si g d Some di show ?thesis by (simp add: revise_def h_revise_def)
      qed
    qed
  qed
qed

lemma h_inference_simulates:
  "holds h a s \<Longrightarrow>
   (\<forall>e. inference csp s q = Inl e \<longrightarrow> h_inference csp h a q = Inl e)
   \<and> (\<forall>s' ok. inference csp s q = Inr (s', ok) \<longrightarrow>
         (\<exists>h'. h_inference csp h a q = Inr (h', ok) \<and> holds h' a s' \<and> length h' = length h))"
proof (induction csp s q arbitrary: h rule: inference.induct)
  case (1 csp s q)
  note hs = "1.prems"
  show ?case
  proof (cases "q = []")
    case True
    with hs show ?thesis by (simp add: inference.simps h_inference.simps)
  next
    case False
    obtain xi xj where l: "last q = (xi, xj)" by (cases "last q")
    note sim = h_revise_simulates [OF hs, of csp xi xj]
    show ?thesis
    proof (cases "revise csp s xi xj")
      case (Inl e)
      with sim have "h_revise csp h a xi xj = Inl e" by simp
      with Inl False l show ?thesis
        by (simp add: inference.simps [of csp s q] h_inference.simps [of csp h a q])
    next
      case (Inr res)
      obtain s1 revised where res: "res = (s1, revised)" by (cases res)
      with Inr sim obtain h1 where hr: "h_revise csp h a xi xj = Inr (h1, revised)"
        and h1: "holds h1 a s1" and len: "length h1 = length h" by auto
      note rv = Inr [unfolded res]
      from h1 have view: "h_view h1 a = Inr s1" by (rule holds_view)
      show ?thesis
      proof (cases revised)
        case not_revised: False
        from "1.IH"(2) [OF False l [symmetric] rv refl not_revised h1] len
        show ?thesis using False l rv hr not_revised
          by (simp add: inference.simps [of csp s q] h_inference.simps [of csp h a q])
      next
        case True
        show ?thesis
        proof (cases "map_of s1 xi")
          case None
          with False l rv hr True view show ?thesis
            by (simp add: inference.simps [of csp s q] h_inference.simps [of csp h a q])
        next
          case (Some d)
          show ?thesis
          proof (cases "length d = 0")
            case empty: True
            with False l rv hr \<open>revised\<close> view Some h1 len show ?thesis
              by (simp add: inference.simps [of csp s q] h_inference.simps [of csp h a q])
          next
            case nonempty: False
            show ?thesis
            proof (cases "get_all_neighboring_arcs csp xi")
              case (Inl e)
              with False l rv hr \<open>revised\<close> view Some nonempty show ?thesis
                by (simp add: inference.simps [of csp s q] h_inference.simps [of csp h a q])
            next
              case arcs: (Inr arcs)
              from "1.IH"(1) [OF False l [symmetric] rv refl \<open>revised\<close> Some nonempty arcs h1] len
              show ?thesis using False l rv hr \<open>revised\<close> view Some nonempty arcs
                by (simp add: inference.simps [of csp s q] h_inference.simps [of csp h a q])
            qed
          qed
        qed
      qed
    qed
  qed
qed

lemma deepcopy_entries_holds:
  assumes "deref_all h es = Inr s" "distinct (map snd es)"
    "fst ` set memo \<inter> snd ` set es = {}"
  shows "\<exists>h' es'. deepcopy_entries h memo es = Inr (h', es') \<and> map fst es' = map fst es
    \<and> deref_all h' es' = Inr s \<and> distinct (map snd es')
    \<and> (\<forall>q\<in>snd ` set es'. length h \<le> q \<and> q < length h') \<and> take (length h) h' = h"
  using assms
proof (induction es arbitrary: h memo s)
  case Nil
  then show ?case by simp
next
  case (Cons e es)
  obtain k p where e: "e = (k, p)" by (cases e)
  with Cons.prems(1) obtain xs s0 where g: "get_list h p = Inr xs"
    and r: "deref_all h es = Inr s0" and s: "s = (k, xs) # s0"
    by (auto split: sum.splits)
  let ?h = "h @ [ListObj xs]"
  from Cons.prems(3) e have "p \<notin> fst ` set memo" by auto
  then have nomemo: "map_of memo p = None" by (simp add: map_of_eq_None_iff)
  have pre: "take (length h) ?h = h" by simp
  from deref_all_prefix [OF pre r] have r': "deref_all ?h es = Inr s0" .
  from Cons.prems(2) e have d: "distinct (map snd es)" and pn: "p \<notin> snd ` set es" by auto
  from Cons.prems(3) e pn have m: "fst ` set ((p, length h) # memo) \<inter> snd ` set es = {}"
    by auto
  from Cons.IH [OF r' d m] obtain h' es0 where
    c: "deepcopy_entries ?h ((p, length h) # memo) es = Inr (h', es0)"
    and keys: "map fst es0 = map fst es" and v: "deref_all h' es0 = Inr s0"
    and d0: "distinct (map snd es0)"
    and fresh: "\<forall>q\<in>snd ` set es0. length ?h \<le> q \<and> q < length h'"
    and pre': "take (length ?h) h' = ?h" by blast
  from pre' have "take (Suc (length h)) h' = h @ [ListObj xs]" by simp
  note p = prefix_snoc [OF this]
  from pre' have "h' ! length h = ListObj xs"
    by (metis length_append_singleton lessI nth_append_length nth_take)
  with p(2) have gl: "get_list h' (length h) = Inr xs" by (simp add: get_list_Inr)
  from fresh have "length h \<notin> snd ` set es0" by fastforce
  with d0 have "distinct (map snd ((k, length h) # es0))" by simp
  moreover from fresh p(2) have "\<forall>q\<in>snd ` set ((k, length h) # es0). length h \<le> q \<and> q < length h'"
    by fastforce
  moreover from nomemo g c e
  have "deepcopy_entries h memo (e # es) = Inr (h', (k, length h) # es0)" by simp
  moreover from gl v s have "deref_all h' ((k, length h) # es0) = Inr s" by simp
  ultimately show ?case using keys e p(1) by auto
qed

lemma deepcopy_holds:
  assumes "holds h a s"
  shows "\<exists>h1. deepcopy h a = Inr (h1, length h) \<and> holds h1 (length h) s
    \<and> take (length h) h1 = h"
proof -
  from assms obtain es where g: "get_dict h a = Inr es" and d: "deref_all h es = Inr s"
    and dk: "distinct (map fst es)" and dp: "distinct (map snd es)"
    by (rule holdsE)
  let ?h = "h @ [DictObj []]"
  have "take (length h) ?h = h" by simp
  from deref_all_prefix [OF this d] have "deref_all ?h es = Inr s" .
  from deepcopy_entries_holds [OF this dp, of "[]"] obtain h' es' where
    c: "deepcopy_entries ?h [] es = Inr (h', es')"
    and keys: "map fst es' = map fst es" and v: "deref_all h' es' = Inr s"
    and d0: "distinct (map snd es')"
    and fresh: "\<forall>q\<in>snd ` set es'. length ?h \<le> q \<and> q < length h'"
    and pre': "take (length ?h) h' = ?h" by auto
  from pre' have "take (Suc (length h)) h' = h @ [DictObj []]" by simp
  note p = prefix_snoc [OF this]
  let ?h1 = "h'[length h := DictObj es']"
  from p(2) have gd: "get_dict ?h1 (length h) = Inr es'" by (simp add: get_dict_Inr)
  from fresh have "length h \<notin> snd ` set es'" by fastforce
  from deref_all_other [OF v this] p(2) have "deref_all ?h1 es' = Inr s" by simp
  with gd keys dk d0 have "holds ?h1 (length h) s" by (simp add: holds_def)
  moreover from p(1) have "take (length h) ?h1 = h" by simp
  moreover from g c have "deepcopy h a = Inr (?h1, length h)" by (simp add: deepcopy_def)
  ultimately show ?thesis by blast
qed

lemma deref_all_assign:
  assumes "deref_all h es = Inr s"
    and "\<forall>q\<in>snd ` set es. get_list h2 q = get_list h q"
    and "get_list h2 p = Inr ys"
  shows "deref_all h2 (AList.update v p es) = Inr (AList.update v ys s)"
  using assms
proof (induction es arbitrary: s)
  case Nil
  then show ?case by simp
next
  case (Cons e es)
  obtain k q where e: "e = (k, q)" by (cases e)
  with Cons.prems(1) obtain xs s0 where g: "get_list h q = Inr xs"
    and r: "deref_all h es = Inr s0" and s: "s = (k, xs) # s0"
    by (auto split: sum.splits)
  from Cons.prems(2) e have same: "\<forall>q\<in>snd ` set es. get_list h2 q = get_list h q"
    and q: "get_list h2 q = get_list h q" by auto
  show ?case
  proof (cases "k = v")
    case True
    from r same have "deref_all h2 es = Inr s0"
      by (induction es arbitrary: s0) (auto split: sum.splits)
    with True e s Cons.prems(3) show ?thesis by simp
  next
    case False
    with Cons.IH [OF r same Cons.prems(3)] e s q g show ?thesis by simp
  qed
qed

lemma distinct_update_values:
  "distinct (map snd al) \<Longrightarrow> x \<notin> snd ` set al \<Longrightarrow> distinct (map snd (AList.update k x al))"
proof (induction al)
  case Nil
  then show ?case by simp
next
  case (Cons e al)
  then show ?case using update_values [of k x al] by (cases e) auto
qed

lemma assign_holds:
  assumes "holds h1 na s"
  shows "\<exists>es. get_dict h1 na = Inr es
    \<and> holds ((h1 @ [ListObj [x]])[na := DictObj (AList.update v (length h1) es)]) na
         (AList.update v [x] s)"
proof -
  from assms obtain es where g: "get_dict h1 na = Inr es" and d: "deref_all h1 es = Inr s"
    and dk: "distinct (map fst es)" and dp: "distinct (map snd es)"
    by (rule holdsE)
  let ?h2 = "(h1 @ [ListObj [x]])[na := DictObj (AList.update v (length h1) es)]"
  from g have na: "na < length h1" "h1 ! na = DictObj es" by (simp_all add: get_dict_Inr)
  then have g2: "get_dict ?h2 na = Inr (AList.update v (length h1) es)"
    by (simp add: get_dict_Inr)
  have same: "get_list ?h2 q = get_list h1 q" if "q \<in> snd ` set es" for q
  proof -
    from deref_all_lists [OF d that] obtain xs where xs: "get_list h1 q = Inr xs" ..
    with na have "q \<noteq> na" "q < length h1" by (auto simp: get_list_Inr)
    with xs show ?thesis by (simp add: get_list_def nth_append)
  qed
  from na have new: "get_list ?h2 (length h1) = Inr [x]" by (simp add: get_list_Inr)
  from same new have "deref_all ?h2 (AList.update v (length h1) es) = Inr (AList.update v [x] s)"
    by (intro deref_all_assign [OF d]) auto
  moreover from dk have "distinct (map fst (AList.update v (length h1) es))"
    by (rule distinct_update)
  moreover have "length h1 \<notin> snd ` set es"
  proof
    assume "length h1 \<in> snd ` set es"
    from deref_all_lists [OF d this] show False by (simp add: get_list_Inr)
  qed
  with dp have "distinct (map snd (AList.update v (length h1) es))"
    by (rule distinct_update_values)
  ultimately show ?thesis using g g2 by (auto simp: holds_def)
qed

lemma holds_prefix:
  assumes "take (length h) h' = h" "holds h a s"
  shows "holds h' a s"
proof -
  from assms(2) obtain es where g: "get_dict h a = Inr es" and d: "deref_all h es = Inr s"
    and dk: "distinct (map fst es)" and dp: "distinct (map snd es)"
    by (rule holdsE)
  from g assms(1) have "get_dict h' a = Inr es" by (auto simp: get_dict_Inr take_prefix_iff)
  with deref_all_prefix [OF assms(1) d] dk dp show ?thesis by (simp add: holds_def)
qed

lemma get_list_prefix:
  "take (length h) h' = h \<Longrightarrow> get_list h p = Inr xs \<Longrightarrow> get_list h' p = Inr xs"
  by (auto simp: get_list_Inr take_prefix_iff)

lemma get_dict_prefix:
  "take (length h) h' = h \<Longrightarrow> get_dict h p = Inr es \<Longrightarrow> get_dict h' p = Inr es"
  by (auto simp: get_dict_Inr take_prefix_iff)

text \<open>A result of the search on values and a result of the search on the store agree:
  the same error, or the same counters with a failure on both sides, or the same
  counters with a solution that the returned address holds.\<close>

definition agrees ::
  "error + (('n, 'v) csp \<times> ('n, 'v) result) \<Rightarrow>
   error + (('n, 'v) heap \<times> ('n, 'v) csp \<times> h_result) \<Rightarrow> bool" where
  "agrees pure stored =
     (case pure of
        Inl e \<Rightarrow> stored = Inl e
      | Inr (csp', Failure) \<Rightarrow> (\<exists>h'. stored = Inr (h', csp', H_Failure))
      | Inr (csp', Solution s') \<Rightarrow>
          (\<exists>h' a'. stored = Inr (h', csp', H_Solution a') \<and> holds h' a' s'))"

lemma agrees_truthy:
  assumes "agrees (Inr (c, res)) stored"
  obtains h' r' where "stored = Inr (h', c, r')" "h_truthy h' r' = Inr (truthy res)"
proof (cases res)
  case Failure
  with assms obtain h' where "stored = Inr (h', c, H_Failure)" by (auto simp: agrees_def)
  with Failure show ?thesis by (auto intro: that simp: h_truthy_def)
next
  case (Solution s')
  with assms obtain h' a' where st: "stored = Inr (h', c, H_Solution a')" and "holds h' a' s'"
    by (auto simp: agrees_def)
  then obtain es where "get_dict h' a' = Inr es" "deref_all h' es = Inr s'" by (auto elim: holdsE)
  with deref_all_keys [OF this(2)] have "h_truthy h' (H_Solution a') = Inr (s' \<noteq> [])"
    by (auto simp: h_truthy_def)
  with st Solution show ?thesis by (auto intro: that)
qed

lemma fuel_mono:
  fixes csp :: "('n, 'v) csp" and h :: "('n, 'v) heap"
  shows "(h_backtrack n csp h a = Some res \<longrightarrow> h_backtrack (n + k) csp h a = Some res)
    \<and> (h_backtrack_values n csp h a v pv i = Some res \<longrightarrow>
         h_backtrack_values (n + k) csp h a v pv i = Some res)"
proof (induction n arbitrary: csp h a v pv i res)
  case 0
  show ?case by simp
next
  case (Suc n)
  note IH1 = Suc.IH [THEN conjunct1, rule_format]
    and IH2 = Suc.IH [THEN conjunct2, rule_format]
  have "h_backtrack (Suc n + k) csp h a = Some res"
    if "h_backtrack (Suc n) csp h a = Some res"
    using that by (auto split: sum.splits option.splits if_splits intro: IH2)
  moreover have "h_backtrack_values (Suc n + k) csp h a v pv i = Some res"
    if run: "h_backtrack_values (Suc n) csp h a v pv i = Some res"
  proof -
    show ?thesis
    proof (cases "get_list h pv")
      case (Inl e)
      with run show ?thesis by simp
    next
      case (Inr ds)
      show ?thesis
      proof (cases "i < length ds")
        case False
        with run Inr show ?thesis by simp
      next
        case True
        show ?thesis
        proof (cases "deepcopy h a")
          case (Inl e)
          with run Inr True show ?thesis by simp
        next
          case cp: (Inr c)
          obtain h1 na where c: "c = (h1, na)" by (cases c)
          note cp = cp [unfolded c]
          show ?thesis
          proof (cases "get_dict h1 na")
            case (Inl e)
            with run Inr True cp show ?thesis by simp
          next
            case g: (Inr es)
            show ?thesis
            proof (cases "get_all_neighboring_arcs csp v")
              case (Inl e)
              with run Inr True cp g show ?thesis by simp
            next
              case arcs: (Inr arcs)
              let ?h2 = "(h1 @ [ListObj [ds ! i]])[na := DictObj (AList.update v (length h1) es)]"
              show ?thesis
              proof (cases "h_inference csp ?h2 na arcs")
                case (Inl e)
                with run Inr True cp g arcs show ?thesis by simp
              next
                case inf: (Inr r3)
                obtain h3 ok where r3: "r3 = (h3, ok)" by (cases r3)
                note inf = inf [unfolded r3]
                show ?thesis
                proof (cases ok)
                  case False
                  with run Inr True cp g arcs inf
                  have "h_backtrack_values n csp h3 a v pv (i + 1) = Some res" by simp
                  from IH2 [OF this] False Inr True cp g arcs inf show ?thesis by simp
                next
                  case ok: True
                  show ?thesis
                  proof (cases "h_backtrack n csp h3 na")
                    case None
                    with run Inr True cp g arcs inf ok show ?thesis by simp
                  next
                    case (Some r4)
                    note b = IH1 [OF Some]
                    show ?thesis
                    proof (cases r4)
                      case (Inl e)
                      with run Inr True cp g arcs inf ok Some have "res = Inl e" by simp
                      with Inr True cp g arcs inf ok b Inl show ?thesis by simp
                    next
                      case r: (Inr t4)
                      obtain h4 c4 x4 where t4: "t4 = (h4, c4, x4)" by (cases t4)
                      show ?thesis
                      proof (cases "h_truthy h4 x4")
                        case (Inl e)
                        with run Inr True cp g arcs inf ok Some r t4 have "res = Inl e" by simp
                        with Inr True cp g arcs inf ok b r t4 Inl show ?thesis by simp
                      next
                        case t: (Inr tr)
                        show ?thesis
                        proof (cases tr)
                          case True
                          with run Inr \<open>i < length ds\<close> cp g arcs inf ok Some r t4 t
                          have "res = Inr (h4, c4, x4)" by simp
                          with Inr \<open>i < length ds\<close> cp g arcs inf ok b r t4 t True
                          show ?thesis by simp
                        next
                          case False
                          with run Inr \<open>i < length ds\<close> cp g arcs inf ok Some r t4 t
                          have "h_backtrack_values n c4 h4 a v pv (i + 1) = Some res" by simp
                          from IH2 [OF this] False Inr \<open>i < length ds\<close> cp g arcs inf ok b r t4 t
                          show ?thesis by simp
                        qed
                      qed
                    qed
                  qed
                qed
              qed
            qed
          qed
        qed
      qed
    qed
  qed
  ultimately show ?case by blast
qed

lemma fuel_more:
  fixes csp :: "('n, 'v) csp" and h :: "('n, 'v) heap"
  assumes "n \<le> m"
  shows "h_backtrack n csp h a = Some res \<Longrightarrow> h_backtrack m csp h a = Some res"
    and "h_backtrack_values n csp h a v pv i = Some res \<Longrightarrow>
         h_backtrack_values m csp h a v pv i = Some res"
  using fuel_mono [of n csp h a res "m - n" v pv i] assms by simp_all

lemma holds_lookup:
  assumes "holds h a s" "get_dict h a = Inr es"
  shows "map_of s v = None \<longleftrightarrow> map_of es v = None"
    and "map_of es v = Some p \<Longrightarrow> get_list h p = Inr ds \<Longrightarrow> map_of s v = Some ds"
proof -
  from assms obtain d: "deref_all h es = Inr s" by (auto elim: holdsE)
  from deref_all_keys [OF d] show "map_of s v = None \<longleftrightarrow> map_of es v = None"
    by (metis map_of_eq_None_iff set_map)
  assume "map_of es v = Some p" "get_list h p = Inr ds"
  with deref_all_lookup [OF d, of v] show "map_of s v = Some ds" by simp
qed

lemma backtrack_simulates:
  fixes csp :: "('n, 'v) csp" and s :: "('n, 'v list) dict"
  shows "holds h a s \<Longrightarrow>
     \<exists>n stored. h_backtrack n csp h a = Some stored \<and> agrees (backtrack csp s) stored"
    and "holds h a s \<Longrightarrow> get_dict h a = Inr es \<Longrightarrow> map_of es v = Some pv \<Longrightarrow>
     get_list h pv = Inr dall \<Longrightarrow> ds = drop i dall \<Longrightarrow>
     \<exists>n stored. h_backtrack_values n csp h a v pv i = Some stored
                \<and> agrees (backtrack_values csp s v ds) stored"
proof (induction csp s and csp s v ds arbitrary: h a and h a es pv dall i
    rule: backtrack_backtrack_values.induct)
  case (1 csp s)
  note hs = "1.prems"
  from hs have view: "h_view h a = Inr s" by (rule holds_view)
  let ?csp = "csp\<lparr>backtracking_call_counter := backtracking_call_counter csp + 1\<rparr>"
  show ?case
  proof (cases "assignment_done s")
    case True
    with view hs have "h_backtrack (Suc 0) csp h a
        = Some (Inr (h, ?csp, H_Solution a))"
      "agrees (backtrack csp s) (Inr (h, ?csp, H_Solution a))"
      by (simp_all add: backtrack.simps [of csp s] agrees_def)
    then show ?thesis by blast
  next
    case False
    show ?thesis
    proof (cases "select_unassigned_variable s")
      case None
      with False view have "h_backtrack (Suc 0) csp h a = Some (Inl KeyError)"
        "agrees (backtrack csp s) (Inl KeyError :: error + ('n, 'v) heap \<times> _)"
        by (simp_all add: backtrack.simps [of csp s] agrees_def)
      then show ?thesis by blast
    next
      case (Some v)
      from hs obtain es where g: "get_dict h a = Inr es" by (auto elim: holdsE)
      show ?thesis
      proof (cases "map_of es v")
        case None
        with holds_lookup(1) [OF hs g, of v] have sv: "map_of s v = None" by simp
        with False Some view g None have "h_backtrack (Suc 0) csp h a = Some (Inl KeyError)"
          "agrees (backtrack csp s) (Inl KeyError :: error + ('n, 'v) heap \<times> _)"
          by (simp_all add: backtrack.simps [of csp s] agrees_def)
        then show ?thesis by blast
      next
        case pv: (Some pv)
        then have "pv \<in> snd ` set es" by (force dest: map_of_SomeD)
        moreover from hs g have "deref_all h es = Inr s" by (auto elim: holdsE)
        ultimately obtain ds where gl: "get_list h pv = Inr ds"
          using deref_all_lists by blast
        from holds_lookup(2) [OF hs g pv gl] have sv: "map_of s v = Some ds" .
        from "1.IH" [OF False Some sv hs g pv gl, of 0] obtain n stored where
          "h_backtrack_values n ?csp h a v pv 0 = Some stored"
          "agrees (backtrack_values ?csp s v ds) stored"
          by auto
        with False Some view g pv sv have "h_backtrack (Suc n) csp h a = Some stored"
          "agrees (backtrack csp s) stored"
          by (simp_all add: backtrack.simps [of csp s])
        then show ?thesis by blast
      qed
    qed
  qed
next
  case (2 csp s v)
  let ?csp = "csp\<lparr>backtracking_fail_counter := backtracking_fail_counter csp + 1\<rparr>"
  from "2.prems"(4,5) have "\<not> i < length dall" by simp
  with "2.prems"(4) have "h_backtrack_values (Suc 0) csp h a v pv i
      = Some (Inr (h, ?csp, H_Failure))"
    "agrees (backtrack_values csp s v []) (Inr (h, ?csp, H_Failure))"
    by (simp_all add: backtrack_values.simps agrees_def)
  then show ?case by blast
next
  case (3 csp s v x rest)
  note hs = "3.prems"(1) and g = "3.prems"(2) and pv = "3.prems"(3)
    and gl = "3.prems"(4) and dr = "3.prems"(5)
  from dr have i: "i < length dall" by (metis drop_all list.distinct(1) not_le)
  with dr have x: "dall ! i = x" and rest: "rest = drop (i + 1) dall"
    by (metis nth_via_drop, metis Cons_nth_drop_Suc Suc_eq_plus1 list.inject)
  from deepcopy_holds [OF hs] obtain h1 where cp: "deepcopy h a = Inr (h1, length h)"
    and h1: "holds h1 (length h) s" by blast
  let ?na = "length h"
  from assign_holds [OF h1, of x v] obtain es1 where g1: "get_dict h1 ?na = Inr es1"
    and h2: "holds ((h1 @ [ListObj [x]])[?na := DictObj (AList.update v (length h1) es1)]) ?na
      (AList.update v [x] s)" by blast
  let ?h2 = "(h1 @ [ListObj [x]])[?na := DictObj (AList.update v (length h1) es1)]"
  note unfold = backtrack_values.simps(2) [of csp s v x rest]
  show ?case
  proof (cases "get_all_neighboring_arcs csp v")
    case (Inl e)
    with gl i cp g1 have "h_backtrack_values (Suc 0) csp h a v pv i = Some (Inl e)"
      "agrees (backtrack_values csp s v (x # rest)) (Inl e :: error + ('n, 'v) heap \<times> _)"
      by (simp_all add: unfold agrees_def)
    then show ?thesis by blast
  next
    case arcs: (Inr arcs)
    note sim = h_inference_simulates [OF h2, of csp arcs]
    show ?thesis
    proof (cases "inference csp (AList.update v [x] s) arcs")
      case (Inl e)
      with sim have hi: "h_inference csp ?h2 ?na arcs = Inl e" by simp
      with Inl arcs gl i x cp g1 have "h_backtrack_values (Suc 0) csp h a v pv i = Some (Inl e)"
        "agrees (backtrack_values csp s v (x # rest)) (Inl e :: error + ('n, 'v) heap \<times> _)"
        by (simp_all add: unfold agrees_def)
      then show ?thesis by blast
    next
      case (Inr res)
      obtain new ok where res: "res = (new, ok)" by (cases res)
      note inf = Inr [unfolded res]
      with sim obtain h3 where hi: "h_inference csp ?h2 ?na arcs = Inr (h3, ok)"
        and h3: "holds h3 ?na new" by auto
      from round_frame [OF cp g1 hi] have pre3: "take (length h) h3 = h" .
      note hs3 = holds_prefix [OF pre3 hs] and g3 = get_dict_prefix [OF pre3 g]
        and gl3 = get_list_prefix [OF pre3 gl]
      show ?thesis
      proof (cases ok)
        case False
        from "3.IH"(3) [OF arcs inf refl False hs3 g3 pv gl3 rest] obtain n stored where
          "h_backtrack_values n csp h3 a v pv (i + 1) = Some stored"
          "agrees (backtrack_values csp s v rest) stored" by blast
        with False inf hi arcs gl i x cp g1
        have "h_backtrack_values (Suc n) csp h a v pv i = Some stored"
          "agrees (backtrack_values csp s v (x # rest)) stored"
          by (simp_all add: unfold)
        then show ?thesis by blast
      next
        case True
        from "3.IH"(1) [OF arcs inf refl True h3] obtain n1 st1 where
          n1: "h_backtrack n1 csp h3 ?na = Some st1" and a1: "agrees (backtrack csp new) st1"
          by blast
        show ?thesis
        proof (cases "backtrack csp new")
          case (Inl e)
          with a1 have "st1 = Inl e" by (simp add: agrees_def)
          with n1 True inf hi arcs gl i x cp g1 Inl
          have "h_backtrack_values (Suc n1) csp h a v pv i = Some (Inl e)"
            "agrees (backtrack_values csp s v (x # rest)) (Inl e :: error + ('n, 'v) heap \<times> _)"
            by (simp_all add: unfold agrees_def)
          then show ?thesis by blast
        next
          case (Inr res1)
          obtain c1 r1 where res1: "res1 = (c1, r1)" by (cases res1)
          note b = Inr [unfolded res1]
          from a1 b obtain h4 r4 where s4: "st1 = Inr (h4, c1, r4)"
            and t4: "h_truthy h4 r4 = Inr (truthy r1)"
            by (auto elim: agrees_truthy)
          show ?thesis
          proof (cases "truthy r1")
            case t: True
            with n1 s4 t4 True inf hi arcs gl i x cp g1 b a1
            have "h_backtrack_values (Suc n1) csp h a v pv i = Some st1"
              "agrees (backtrack_values csp s v (x # rest)) st1"
              by (simp_all add: unfold)
            then show ?thesis by blast
          next
            case f: False
            from branch_frame [of n1 csp h3 ?na h4 c1 r4] n1 s4
            have "take (length h3) h4 = h3" by simp
            from this pre3 have pre4: "take (length h) h4 = h" by (rule prefix_trans)
            from "3.IH"(2) [OF arcs inf refl True b refl f holds_prefix [OF pre4 hs]
                get_dict_prefix [OF pre4 g] pv get_list_prefix [OF pre4 gl] rest]
            obtain n2 st2 where
              n2: "h_backtrack_values n2 c1 h4 a v pv (i + 1) = Some st2"
              and a2: "agrees (backtrack_values c1 s v rest) st2" by blast
            let ?n = "max n1 n2"
            from fuel_more(1) [OF _ n1, of ?n] s4
            have m1: "h_backtrack ?n csp h3 ?na = Some (Inr (h4, c1, r4))" by simp
            from fuel_more(2) [OF _ n2, of ?n]
            have m2: "h_backtrack_values ?n c1 h4 a v pv (i + 1) = Some st2" by simp
            from m1 m2 t4 f True inf hi arcs gl i x cp g1 b a2
            have "h_backtrack_values (Suc ?n) csp h a v pv i = Some st2"
              "agrees (backtrack_values csp s v (x # rest)) st2"
              by (simp_all add: unfold)
            then show ?thesis by blast
          qed
        qed
      qed
    qed
  qed
qed

text \<open>
  Claim C8. Whatever \<open>backtrack\<close> returns, and whatever its loop returns from any round
  on, every object that was in the store when the call or the round began is in the
  store unchanged at the end: the parent dictionary and its lists, and in a later round
  also the copies that the earlier rounds made. So the one-element list and the removals
  of \<open>inference\<close> went to objects allocated in that round, and the parent assignment reads
  the same before and after. On a store that holds an assignment without sharing, the
  search returns once the fuel suffices, with the result of the search on values.
\<close>

theorem branch_isolation:
  fixes csp :: "('n, 'v) csp" and h :: "('n, 'v) heap"
  shows "(h_backtrack fuel csp h a = Some (Inr (h', csp', r)) \<longrightarrow>
          take (length h) h' = h \<and> (\<forall>s. h_view h a = Inr s \<longrightarrow> h_view h' a = Inr s))
   \<and> (h_backtrack_values fuel csp h a v pv i = Some (Inr (h', csp', r)) \<longrightarrow>
          take (length h) h' = h \<and> (\<forall>s. h_view h a = Inr s \<longrightarrow> h_view h' a = Inr s))
   \<and> (holds h a s0 \<longrightarrow>
          (\<exists>n stored. h_backtrack n csp h a = Some stored \<and> agrees (backtrack csp s0) stored))"
  using branch_frame [of fuel csp h a h' csp' r v pv i] h_view_prefix [of h h' a]
    backtrack_simulates(1) [of h a s0 csp]
  by blast

theorem branch_isolation_witness:
  "h_backtrack 5 abc_network abc_heap 0
     = Some (Inr ([DictObj [(''A'', 1), (''B'', 2), (''C'', 3)], ListObj [1], ListObj [1],
                   ListObj [1, 2],
                   DictObj [(''A'', 5), (''B'', 6), (''C'', 8)], ListObj [1], ListObj [],
                   ListObj [1, 2], ListObj [1],
                   DictObj [(''A'', 10), (''B'', 11), (''C'', 13)], ListObj [1], ListObj [1],
                   ListObj [1, 2], ListObj [2]],
                  abc_network\<lparr>backtracking_call_counter := 2\<rparr>, H_Solution 9))
   \<and> h_view abc_heap 0 = Inr [(''A'', [1]), (''B'', [1]), (''C'', [1, 2])]
   \<and> h_view [DictObj [(''A'', 1), (''B'', 2), (''C'', 3)], ListObj [1], ListObj [1],
              ListObj [1, 2],
              DictObj [(''A'', 5), (''B'', 6), (''C'', 8)], ListObj [1], ListObj [],
              ListObj [1, 2], ListObj [1],
              DictObj [(''A'', 10), (''B'', 11), (''C'', 13)], ListObj [1], ListObj [1],
              ListObj [1, 2], ListObj [2]] 0
       = Inr [(''A'', [1]), (''B'', [1]), (''C'', [1::int, 2])]
   \<and> holds abc_heap 0 [(''A'', [1]), (''B'', [1]), (''C'', [1, 2])]
   \<and> (\<exists>n stored. h_backtrack n abc_network abc_heap 0 = Some stored
         \<and> agrees (backtrack abc_network [(''A'', [1]), (''B'', [1]), (''C'', [1, 2])]) stored)"
proof -
  have v: "h_view abc_heap 0 = Inr [(''A'', [1]), (''B'', [1]), (''C'', [1, 2])]"
    by (simp add: h_view_def get_dict_def get_list_def abc_heap_def)
  have hs: "holds abc_heap 0 [(''A'', [1]), (''B'', [1]), (''C'', [1, 2])]"
    by (simp add: holds_def get_dict_def get_list_def abc_heap_def)
  note iso = branch_isolation [of 5 abc_network abc_heap 0 _ _ _ "''C''" 0 0
      "[(''A'', [1]), (''B'', [1]), (''C'', [1, 2])]"]
  from iso hs have "\<exists>n stored. h_backtrack n abc_network abc_heap 0 = Some stored
      \<and> agrees (backtrack abc_network [(''A'', [1]), (''B'', [1]), (''C'', [1, 2])]) stored"
    by blast
  moreover from iso abc_store_run v
  have "h_view [DictObj [(''A'', 1), (''B'', 2), (''C'', 3)], ListObj [1], ListObj [1],
              ListObj [1, 2],
              DictObj [(''A'', 5), (''B'', 6), (''C'', 8)], ListObj [1], ListObj [],
              ListObj [1, 2], ListObj [1],
              DictObj [(''A'', 10), (''B'', 11), (''C'', 13)], ListObj [1], ListObj [1],
              ListObj [1, 2], ListObj [2]] 0
       = Inr [(''A'', [1]), (''B'', [1]), (''C'', [1::int, 2])]"
    by simp
  ultimately show ?thesis using abc_store_run v hs by blast
qed

end
